theory Spec2Isabelle
  imports Main
begin

section \<open>Text\<close>

text \<open>
  Text is a \<^typ>\<open>string\<close>. The literals of the sources that are not ASCII (messages and
  button labels) are written as their UTF-8 bytes. The operations of the sources used
  below (\<^verbatim>\<open>split\<close>, \<^verbatim>\<open>join\<close>, \<^verbatim>\<open>startsWith\<close>, \<^verbatim>\<open>includes\<close> and the two regular
  expressions) only look for ASCII characters and line terminators, so they read the
  same on UTF-8 bytes as on the code units of a JavaScript string.
\<close>

definition newline :: char where
  "newline = CHR 0x0A"

text \<open>\<^verbatim>\<open>s.split('\n')\<close>: never empty, one more piece than there are newlines.\<close>

fun split_newline :: "string \<Rightarrow> string list" where
  "split_newline [] = [[]]"
| "split_newline (c # cs) =
     (if c = newline then [] # split_newline cs
      else (case split_newline cs of
              l # ls \<Rightarrow> (c # l) # ls
            | [] \<Rightarrow> [[c]]))"

text \<open>\<^verbatim>\<open>xs.join('\n')\<close>.\<close>

fun join_newline :: "string list \<Rightarrow> string" where
  "join_newline [] = []"
| "join_newline [x] = x"
| "join_newline (x # y # ys) = x @ newline # join_newline (y # ys)"

definition startsWith :: "string \<Rightarrow> string \<Rightarrow> bool" where
  "startsWith s p = (take (length p) s = p)"

fun includes_str :: "string \<Rightarrow> string \<Rightarrow> bool" where
  "includes_str [] p = (p = [])"
| "includes_str (c # cs) p = (startsWith (c # cs) p \<or> includes_str cs p)"

text \<open>The rest of \<open>s\<close> after the literal \<open>p\<close>, when \<open>s\<close> begins with it.\<close>

definition dropPrefix :: "string \<Rightarrow> string \<Rightarrow> string option" where
  "dropPrefix p s = (if startsWith s p then Some (drop (length p) s) else None)"

definition isDigit :: "char \<Rightarrow> bool" where
  "isDigit c = (c \<in> set ''0123456789'')"

text \<open>
  \<^verbatim>\<open>parseInt(ds, 10)\<close> on a non-empty string of decimal digits. The source holds the
  result in a double; the model keeps the exact number, which is the same value below
  \<open>2^53\<close> and is zero exactly when the double is.
\<close>

definition parseInt :: "string \<Rightarrow> nat" where
  "parseInt ds = foldl (\<lambda>n c. 10 * n + (of_char c - 48)) 0 ds"

text \<open>
  The characters that \<^verbatim>\<open>.\<close> of a JavaScript regular expression does not match: LF, CR,
  U+2028 and U+2029 (the last two are the bytes E2 80 A8 and E2 80 A9).
\<close>

fun hasSeparator :: "string \<Rightarrow> bool" where
  "hasSeparator (a # b # c # cs) =
     ((a = CHR 0xE2 \<and> b = CHR 0x80 \<and> (c = CHR 0xA8 \<or> c = CHR 0xA9))
      \<or> hasSeparator (b # c # cs))"
| "hasSeparator _ = False"

definition dotPlus :: "string \<Rightarrow> bool" where
  "dotPlus s = (s \<noteq> [] \<and> CHR 0x0A \<notin> set s \<and> CHR 0x0D \<notin> set s \<and> \<not> hasSeparator s)"

text \<open>The button labels and messages of tutorialManager.ts and errors.ts.\<close>

definition msg_no_tutorial_loaded :: string where
  "msg_no_tutorial_loaded = [CHR 0xE6, CHR 0xB2, CHR 0xA1, CHR 0xE6, CHR 0x9C, CHR 0x89, CHR 0xE5, CHR 0x8A, CHR 0xA0, CHR 0xE8, CHR 0xBD, CHR 0xBD, CHR 0xE7, CHR 0x9A, CHR 0x84, CHR 0xE6, CHR 0x95, CHR 0x99, CHR 0xE7, CHR 0xA8, CHR 0x8B]"

definition msg_step_not_found :: string where
  "msg_step_not_found = [CHR 0xE6, CHR 0xAD, CHR 0xA5, CHR 0xE9, CHR 0xAA, CHR 0xA4, CHR 0xE4, CHR 0xB8, CHR 0x8D, CHR 0xE5, CHR 0xAD, CHR 0x98, CHR 0xE5, CHR 0x9C, CHR 0xA8] @ '': ''"

definition msg_please_open :: string where
  "msg_please_open = [CHR 0xE6, CHR 0xB2, CHR 0xA1, CHR 0xE6, CHR 0x9C, CHR 0x89, CHR 0xE5, CHR 0x8A, CHR 0xA0, CHR 0xE8, CHR 0xBD, CHR 0xBD, CHR 0xE7, CHR 0x9A, CHR 0x84, CHR 0xE6, CHR 0x95, CHR 0x99, CHR 0xE7, CHR 0xA8, CHR 0x8B, CHR 0xEF, CHR 0xBC, CHR 0x8C, CHR 0xE8, CHR 0xAF, CHR 0xB7, CHR 0xE5, CHR 0x85, CHR 0x88, CHR 0xE6, CHR 0x89, CHR 0x93, CHR 0xE5, CHR 0xBC, CHR 0x80, CHR 0xE4, CHR 0xB8, CHR 0x80, CHR 0xE4, CHR 0xB8, CHR 0xAA, CHR 0xE6, CHR 0x95, CHR 0x99, CHR 0xE7, CHR 0xA8, CHR 0x8B]"

definition choice_stash :: string where
  "choice_stash = [CHR 0xE6, CHR 0x9A, CHR 0x82, CHR 0xE5, CHR 0xAD, CHR 0x98, CHR 0xE4, CHR 0xBF, CHR 0xAE, CHR 0xE6, CHR 0x94, CHR 0xB9, CHR 0xE5, CHR 0xB9, CHR 0xB6, CHR 0xE7, CHR 0xBB, CHR 0xA7, CHR 0xE7, CHR 0xBB, CHR 0xAD]"

definition choice_discard :: string where
  "choice_discard = [CHR 0xE6, CHR 0x94, CHR 0xBE, CHR 0xE5, CHR 0xBC, CHR 0x83, CHR 0xE4, CHR 0xBF, CHR 0xAE, CHR 0xE6, CHR 0x94, CHR 0xB9, CHR 0xE5, CHR 0xB9, CHR 0xB6, CHR 0xE7, CHR 0xBB, CHR 0xA7, CHR 0xE7, CHR 0xBB, CHR 0xAD]"

definition choice_cancel :: string where
  "choice_cancel = [CHR 0xE5, CHR 0x8F, CHR 0x96, CHR 0xE6, CHR 0xB6, CHR 0x88]"

definition msg_config_not_found :: string where
  "msg_config_not_found = [CHR 0xE6, CHR 0x9C, CHR 0xAA, CHR 0xE6, CHR 0x89, CHR 0xBE, CHR 0xE5, CHR 0x88, CHR 0xB0, CHR 0xE6, CHR 0x95, CHR 0x99, CHR 0xE7, CHR 0xA8, CHR 0x8B, CHR 0xE9, CHR 0x85, CHR 0x8D, CHR 0xE7, CHR 0xBD, CHR 0xAE, CHR 0xE6, CHR 0x96, CHR 0x87, CHR 0xE4, CHR 0xBB, CHR 0xB6] @ '' (tutorial.yaml, tutorial.yml, '' @ [CHR 0xE6, CHR 0x88, CHR 0x96] @ '' tutorial.json)''"

definition msg_invalid_refs :: string where
  "msg_invalid_refs = [CHR 0xE4, CHR 0xBB, CHR 0xA5, CHR 0xE4, CHR 0xB8, CHR 0x8B, CHR 0xE6, CHR 0xAD, CHR 0xA5, CHR 0xE9, CHR 0xAA, CHR 0xA4, CHR 0xE7, CHR 0x9A, CHR 0x84] @ '' Git '' @ [CHR 0xE5, CHR 0xBC, CHR 0x95, CHR 0xE7, CHR 0x94, CHR 0xA8, CHR 0xE6, CHR 0x97, CHR 0xA0, CHR 0xE6, CHR 0x95, CHR 0x88] @ '':'' @ [newline]"

section \<open>Data model (types.ts) and errors (errors.ts)\<close>

text \<open>
  \<^verbatim>\<open>StepConfig\<close> as the parser hands it over: validation lets \<^verbatim>\<open>description\<close> and
  \<^verbatim>\<open>parentId\<close> be absent, so both are optional here.
\<close>

record StepConfig =
  cfg_id :: string
  cfg_title :: string
  cfg_description :: "string option"
  cfg_gitRef :: string
  cfg_parentId :: "string option"
  cfg_explanation :: string

record StepNode =
  node_id :: string
  node_title :: string
  node_description :: string
  node_gitRef :: string
  node_parentId :: "string option"
  node_children :: "string list"
  node_explanationPath :: string

record TutorialConfig =
  tc_name :: string
  tc_description :: string
  tc_version :: string
  tc_steps :: "StepConfig list"

record Tutorial =
  tut_id :: string
  tut_name :: string
  tut_description :: string
  tut_rootPath :: string
  tut_steps :: "StepNode list"
  tut_currentStepId :: "string option"

record DiffHunk =
  oldStart :: nat
  oldLines :: nat
  newStart :: nat
  newLines :: nat
  content :: string

datatype FileStatus = added | modified | deleted | renamed

record FileDiff =
  fd_filePath :: string
  fd_status :: FileStatus
  fd_additions :: nat
  fd_deletions :: nat
  fd_hunks :: "DiffHunk list"

text \<open>
  \<^verbatim>\<open>TutorialProgress\<close>: \<^verbatim>\<open>lastAccessTime\<close> holds a value of \<^verbatim>\<open>Date.now()\<close>.
\<close>

record TutorialProgress =
  prog_tutorialId :: string
  prog_currentStepId :: "string option"
  prog_completedSteps :: "string list"
  prog_lastAccessTime :: int

text \<open>
  What a rejected promise or a \<^verbatim>\<open>throw\<close> carries: a plain \<^verbatim>\<open>new Error(message)\<close>; an
  instance of \<^verbatim>\<open>TutorialError\<close> or of one of its subclasses, with \<^verbatim>\<open>name\<close>, \<^verbatim>\<open>message\<close>,
  \<^verbatim>\<open>code\<close> and \<^verbatim>\<open>details\<close>; or the rejection of a collaborator (simple-git, the file
  system, the editor) with its message.
\<close>

datatype jsError =
  Error string
| TutorialError string string string "string option"
| Rejected string

definition TutorialNotLoadedError :: jsError where
  "TutorialNotLoadedError =
     TutorialError ''TutorialNotLoadedError'' msg_please_open ''TUTORIAL_NOT_LOADED'' None"

definition StepNotFoundError :: "string \<Rightarrow> jsError" where
  "StepNotFoundError stepId =
     TutorialError ''StepNotFoundError'' (msg_step_not_found @ stepId) ''STEP_NOT_FOUND''
       (Some stepId)"

text \<open>\<^verbatim>\<open>error instanceof TutorialError\<close>.\<close>

fun instanceofTutorialError :: "jsError \<Rightarrow> bool" where
  "instanceofTutorialError (TutorialError n m c d) = True"
| "instanceofTutorialError _ = False"

section \<open>Step graph builder (ConfigParser.buildStepTree)\<close>

text \<open>
  A JavaScript \<^verbatim>\<open>Map\<close> iterates in insertion order, and \<^verbatim>\<open>set\<close> on a key that is
  present replaces the value where it stands: an association list with \<open>map_set\<close>.
\<close>

fun map_set :: "'k \<Rightarrow> 'v \<Rightarrow> ('k \<times> 'v) list \<Rightarrow> ('k \<times> 'v) list" where
  "map_set k v [] = [(k, v)]"
| "map_set k v ((k', v') # m) =
     (if k' = k then (k, v) # m else (k', v') # map_set k v m)"

text \<open>
  The object literal of the first pass. \<^verbatim>\<open>config.description || ''\<close> and
  \<^verbatim>\<open>config.parentId || null\<close> take the right operand for \<^verbatim>\<open>undefined\<close> and for the
  empty string.
\<close>

definition newNode :: "StepConfig \<Rightarrow> StepNode" where
  "newNode config =
     \<lparr>node_id = cfg_id config,
      node_title = cfg_title config,
      node_description = (case cfg_description config of None \<Rightarrow> [] | Some d \<Rightarrow> d),
      node_gitRef = cfg_gitRef config,
      node_parentId = (case cfg_parentId config of
                         None \<Rightarrow> None
                       | Some p \<Rightarrow> if p = [] then None else Some p),
      node_children = [],
      node_explanationPath = cfg_explanation config\<rparr>"

text \<open>
  One round of the second loop. The parent is the object stored under its own id, so
  \<^verbatim>\<open>parent.children.push(node.id)\<close> is an update of that entry of the map.
\<close>

definition linkChild :: "(string \<times> StepNode) list \<Rightarrow> StepNode \<Rightarrow> (string \<times> StepNode) list" where
  "linkChild nodeMap node =
     (case node_parentId node of
        None \<Rightarrow> nodeMap
      | Some pid \<Rightarrow>
          if pid = [] then nodeMap
          else (case map_of nodeMap pid of
                  None \<Rightarrow> nodeMap
                | Some parent \<Rightarrow>
                    map_set pid (parent\<lparr>node_children := node_children parent @ [node_id node]\<rparr>)
                      nodeMap))"

text \<open>
  The second loop runs over \<^verbatim>\<open>nodeMap.values()\<close> and reads only \<^verbatim>\<open>id\<close> and \<^verbatim>\<open>parentId\<close>
  of each node, which no round changes: it is a fold over the values the map has after
  the first loop.
\<close>

definition buildStepTree :: "StepConfig list \<Rightarrow> StepNode list" where
  "buildStepTree stepConfigs =
     (let nodeMap = foldl (\<lambda>m config. map_set (cfg_id config) (newNode config) m) [] stepConfigs;
          linked = foldl linkChild nodeMap (map snd nodeMap)
      in map snd linked)"

section \<open>Diff synthesizer (GitService.parseDiffOutput, GitService.getDiff)\<close>

text \<open>
  \<^verbatim>\<open>line.match(/^diff --git a\/(.+) b\/(.+)$/)\<close>, giving the second group. The first
  group is greedy, so the groups are divided at the last \<^verbatim>\<open>" b/"\<close> that leaves both of
  them non-empty; \<open>lastSplit\<close> looks for it behind the first character.
\<close>

fun lastSplit :: "string \<Rightarrow> string option" where
  "lastSplit [] = None"
| "lastSplit (c # cs) =
     (case lastSplit cs of
        Some g \<Rightarrow> Some g
      | None \<Rightarrow>
          (case dropPrefix '' b/'' (c # cs) of
             Some g \<Rightarrow> if g = [] then None else Some g
           | None \<Rightarrow> None))"

definition fileMatch :: "string \<Rightarrow> string option" where
  "fileMatch line =
     (case dropPrefix ''diff --git a/'' line of
        None \<Rightarrow> None
      | Some rest \<Rightarrow> if dotPlus rest then lastSplit (tl rest) else None)"

text \<open>
  \<^verbatim>\<open>line.match(/^@@ -(\d+),?(\d*) \+(\d+),?(\d*) @@/)\<close>, giving the four groups. Each
  \<^verbatim>\<open>\d+\<close> takes the whole run of digits; after it the comma is taken when there is one
  and \<^verbatim>\<open>\d*\<close> takes the digits behind it. No other division of the digits can match,
  since each of them ends in front of a digit or a comma where a space is required.
\<close>

definition skipComma :: "string \<Rightarrow> string" where
  "skipComma s = (case s of c # cs \<Rightarrow> if c = CHR '','' then cs else s | [] \<Rightarrow> s)"

definition hunkMatch :: "string \<Rightarrow> (string \<times> string \<times> string \<times> string) option" where
  "hunkMatch line =
     (case dropPrefix ''@@ -'' line of
        None \<Rightarrow> None
      | Some r1 \<Rightarrow>
          let g1 = takeWhile isDigit r1;
              r2 = skipComma (dropWhile isDigit r1);
              g2 = takeWhile isDigit r2
          in if g1 = [] then None
             else (case dropPrefix '' +'' (dropWhile isDigit r2) of
                     None \<Rightarrow> None
                   | Some r3 \<Rightarrow>
                       let g3 = takeWhile isDigit r3;
                           r4 = skipComma (dropWhile isDigit r3);
                           g4 = takeWhile isDigit r4
                       in if g3 = [] then None
                          else (case dropPrefix '' @@'' (dropWhile isDigit r4) of
                                  None \<Rightarrow> None
                                | Some r5 \<Rightarrow> Some (g1, g2, g3, g4))))"

text \<open>The object literal assigned to \<^verbatim>\<open>currentHunk\<close>; an empty group is falsy.\<close>

definition newHunk :: "string \<times> string \<times> string \<times> string \<Rightarrow> DiffHunk" where
  "newHunk groups =
     (case groups of (g1, g2, g3, g4) \<Rightarrow>
        \<lparr>oldStart = parseInt g1,
         oldLines = (if g2 = [] then 1 else parseInt g2),
         newStart = parseInt g3,
         newLines = (if g4 = [] then 1 else parseInt g4),
         content = []\<rparr>)"

text \<open>The local variables of \<^verbatim>\<open>parseDiffOutput\<close>.\<close>

record ParseState =
  hunksMap :: "string \<rightharpoonup> DiffHunk list"
  currentFile :: "string option"
  currentHunk :: "DiffHunk option"
  hunkContent :: "string list"

text \<open>
  The block that saves a hunk: \<^verbatim>\<open>currentHunk.content = hunkContent.join('\n')\<close>, then the
  hunk is pushed on the list of its file, which is created when missing.
\<close>

definition saveHunk :: "string \<Rightarrow> DiffHunk \<Rightarrow> string list \<Rightarrow> (string \<rightharpoonup> DiffHunk list)
    \<Rightarrow> (string \<rightharpoonup> DiffHunk list)" where
  "saveHunk file hunk lines m =
     m(file \<mapsto> (case m file of None \<Rightarrow> [] | Some hs \<Rightarrow> hs)
                 @ [hunk\<lparr>content := join_newline lines\<rparr>])"

text \<open>
  In the conditions below \<^verbatim>\<open>currentFile\<close> is true when it is neither \<^verbatim>\<open>null\<close> nor the
  empty string.
\<close>

text \<open>
  The block \<^verbatim>\<open>if (currentFile && currentHunk) { ... }\<close> that stands at a file header
  and behind the loop.
\<close>

definition saveLast :: "ParseState \<Rightarrow> string \<rightharpoonup> DiffHunk list" where
  "saveLast st =
     (case (currentFile st, currentHunk st) of
        (Some file, Some hunk) \<Rightarrow>
          if file \<noteq> [] then saveHunk file hunk (hunkContent st) (hunksMap st)
          else hunksMap st
      | _ \<Rightarrow> hunksMap st)"

text \<open>The last block of the loop body, which collects the lines of a hunk.\<close>

definition isHunkLine :: "string \<Rightarrow> bool" where
  "isHunkLine line = (startsWith line ''+'' \<or> startsWith line ''-'' \<or> startsWith line '' '')"

definition collectLine :: "ParseState \<Rightarrow> string \<Rightarrow> ParseState" where
  "collectLine st line =
     (if currentHunk st \<noteq> None \<and> isHunkLine line
      then st\<lparr>hunkContent := hunkContent st @ [line]\<rparr>
      else st)"

text \<open>
  The body of the loop over the lines. A hunk header counts only under
  \<^verbatim>\<open>hunkMatch && currentFile\<close>; a line that fails it falls through to the last block.
\<close>

definition parseLine :: "ParseState \<Rightarrow> string \<Rightarrow> ParseState" where
  "parseLine st line =
     (case fileMatch line of
        Some file2 \<Rightarrow>
          \<lparr>hunksMap = saveLast st,
           currentFile = Some file2,
           currentHunk = None,
           hunkContent = []\<rparr>
      | None \<Rightarrow>
          (case hunkMatch line of
             Some groups \<Rightarrow>
               (case currentFile st of
                  Some file \<Rightarrow>
                    if file \<noteq> [] then
                      \<lparr>hunksMap =
                         (case currentHunk st of
                            Some hunk \<Rightarrow> saveHunk file hunk (hunkContent st) (hunksMap st)
                          | None \<Rightarrow> hunksMap st),
                       currentFile = Some file,
                       currentHunk = Some (newHunk groups),
                       hunkContent = [line]\<rparr>
                    else collectLine st line
                | None \<Rightarrow> collectLine st line)
           | None \<Rightarrow> collectLine st line))"

definition parseDiffOutput :: "string \<Rightarrow> string \<rightharpoonup> DiffHunk list" where
  "parseDiffOutput diffOutput =
     saveLast
       (foldl parseLine
          \<lparr>hunksMap = Map.empty, currentFile = None, currentHunk = None, hunkContent = []\<rparr>
          (split_newline diffOutput))"

text \<open>
  One entry of \<^verbatim>\<open>diffSummary.files\<close>. simple-git declares it as the union of a text
  file, with \<^verbatim>\<open>file\<close>, \<^verbatim>\<open>insertions\<close> and \<^verbatim>\<open>deletions\<close>, and a binary file, with
  \<^verbatim>\<open>file\<close> and neither count; the other properties are not read by the source.
\<close>

datatype DiffSummaryFile =
  TextFile string nat nat
| BinaryFile string

fun dsf_file :: "DiffSummaryFile \<Rightarrow> string" where
  "dsf_file (TextFile f ins del) = f"
| "dsf_file (BinaryFile f) = f"

text \<open>
  The body of the loop of \<^verbatim>\<open>getDiff\<close> over \<^verbatim>\<open>diffSummary.files\<close>. The test
  \<^verbatim>\<open>'insertions' in file && 'deletions' in file\<close> tells the text file from the binary
  one, and \<^verbatim>\<open>!fromRef\<close> holds for the empty string. The three assignments to
  \<^verbatim>\<open>status\<close> follow in the order of the source, a later one overwriting an earlier one.
\<close>

definition fileDiffOf :: "string \<Rightarrow> (string \<rightharpoonup> DiffHunk list) \<Rightarrow> DiffSummaryFile \<Rightarrow> FileDiff" where
  "fileDiffOf fromRef hunks_map file =
     (let filePath = dsf_file file;
          status1 = (case file of
                       TextFile f ins del \<Rightarrow>
                         if ins > 0 \<and> del = 0 \<and> fromRef = [] then added
                         else if del > 0 \<and> ins = 0 then deleted
                         else modified
                     | BinaryFile f \<Rightarrow> modified);
          status2 = (if includes_str filePath '' => '' then renamed else status1);
          status3 = (case hunks_map filePath of
                       Some hunks \<Rightarrow>
                         (case hunks of
                            h # hs \<Rightarrow> if oldLines h = 0 then added else status2
                          | [] \<Rightarrow> status2)
                     | None \<Rightarrow> status2)
      in \<lparr>fd_filePath = filePath,
          fd_status = status3,
          fd_additions = (case file of TextFile f ins del \<Rightarrow> ins | BinaryFile f \<Rightarrow> 0),
          fd_deletions = (case file of TextFile f ins del \<Rightarrow> del | BinaryFile f \<Rightarrow> 0),
          fd_hunks = (case hunks_map filePath of Some hunks \<Rightarrow> hunks | None \<Rightarrow> [])\<rparr>)"

section \<open>Progress tracker (ProgressTracker)\<close>

text \<open>
  The object \<^verbatim>\<open>data\<close> that \<^verbatim>\<open>saveToStorage\<close> hands to the storage: a plain object
  with its own properties and its prototype (\<open>None\<close> for \<^verbatim>\<open>Object.prototype\<close>).
\<close>

record StoredData =
  own :: "string \<rightharpoonup> TutorialProgress"
  proto :: "TutorialProgress option"

text \<open>
  The tracker object. \<^verbatim>\<open>context\<close> is \<^verbatim>\<open>null\<close> until \<^verbatim>\<open>initialize\<close> is called; once
  bound, the only use of it is \<^verbatim>\<open>context.globalState.update(STORAGE_KEY, data)\<close>, so
  the field holds the sequence of \<^verbatim>\<open>data\<close> objects written so far, oldest first.
  \<^verbatim>\<open>progressCache\<close> is the \<^verbatim>\<open>Map<string, TutorialProgress>\<close>; only \<^verbatim>\<open>get\<close>, \<^verbatim>\<open>set\<close>
  and \<^verbatim>\<open>forEach\<close> are used below.
\<close>

record ProgressTracker =
  globalState :: "StoredData list option"
  progressCache :: "string \<rightharpoonup> TutorialProgress"

text \<open>
  Every operation receives as \<open>now\<close> the value that \<^verbatim>\<open>Date.now()\<close> returns while it
  runs.
\<close>

definition getProgress :: "int \<Rightarrow> string \<Rightarrow> ProgressTracker \<Rightarrow> TutorialProgress \<times> ProgressTracker" where
  "getProgress now tutorialId t =
     (case progressCache t tutorialId of
        Some cached \<Rightarrow> (cached, t)
      | None \<Rightarrow>
          (let newProgress = \<lparr>prog_tutorialId = tutorialId, prog_currentStepId = None,
                               prog_completedSteps = [], prog_lastAccessTime = now\<rparr>
           in (newProgress, t\<lparr>progressCache := (progressCache t)(tutorialId \<mapsto> newProgress)\<rparr>)))"

text \<open>
  The loop \<^verbatim>\<open>this.progressCache.forEach((value, key) => { data[key] = value; })\<close> on
  the empty object literal. The assignment makes an own property for every key but
  \<^verbatim>\<open>__proto__\<close>, for which it sets the prototype of \<^verbatim>\<open>data\<close> to the value and stores
  no entry. A map holds each key once, so the order of the loop does not show.
\<close>

definition copyToData :: "(string \<rightharpoonup> TutorialProgress) \<Rightarrow> StoredData" where
  "copyToData cache = \<lparr>own = cache(''__proto__'' := None), proto = cache ''__proto__''\<rparr>"

definition saveToStorage :: "ProgressTracker \<Rightarrow> ProgressTracker" where
  "saveToStorage t =
     (case globalState t of
        None \<Rightarrow> t
      | Some written \<Rightarrow> t\<lparr>globalState := Some (written @ [copyToData (progressCache t)])\<rparr>)"

text \<open>
  \<^verbatim>\<open>progress\<close> is the object held by the cache under \<^verbatim>\<open>tutorialId\<close>; the two
  assignments to it are one update of that cache entry.
\<close>

definition markStepCompleted :: "int \<Rightarrow> string \<Rightarrow> string \<Rightarrow> ProgressTracker \<Rightarrow> ProgressTracker" where
  "markStepCompleted now tutorialId stepId t =
     (case getProgress now tutorialId t of (progress, t1) \<Rightarrow>
        if stepId \<notin> set (prog_completedSteps progress) then
          saveToStorage
            (t1\<lparr>progressCache := (progressCache t1)(tutorialId \<mapsto>
                  progress\<lparr>prog_completedSteps := prog_completedSteps progress @ [stepId],
                           prog_lastAccessTime := now\<rparr>)\<rparr>)
        else t1)"

text \<open>
  \<^verbatim>\<open>progress.currentStepId && progress.currentStepId !== stepId\<close>: the left operand is
  false for \<^verbatim>\<open>null\<close> and for the empty string. After the nested call the source keeps
  writing through the same reference \<^verbatim>\<open>progress\<close>; the model reads the cache entry
  again, which is that object.
\<close>

definition setCurrentStep :: "int \<Rightarrow> string \<Rightarrow> string \<Rightarrow> ProgressTracker \<Rightarrow> ProgressTracker" where
  "setCurrentStep now tutorialId stepId t =
     (case getProgress now tutorialId t of (progress, t1) \<Rightarrow>
        let t2 = (case prog_currentStepId progress of
                    Some cur \<Rightarrow>
                      if cur \<noteq> [] \<and> cur \<noteq> stepId then markStepCompleted now tutorialId cur t1
                      else t1
                  | None \<Rightarrow> t1)
        in (case getProgress now tutorialId t2 of (progress2, t3) \<Rightarrow>
              saveToStorage
                (t3\<lparr>progressCache := (progressCache t3)(tutorialId \<mapsto>
                      progress2\<lparr>prog_currentStepId := Some stepId,
                                prog_lastAccessTime := now\<rparr>)\<rparr>)))"

section \<open>Version-control adapter and orchestrator (GitService, TutorialManager)\<close>

text \<open>
  Everything outside the program is a value of the type variable \<open>'w\<close>: the
  repositories, the files, the editor and its user. The collaborators are the fields of
  a \<open>host\<close>. A call that can be rejected gives the message of the rejection (\<open>Some\<close> or
  \<open>Inl\<close>); a call that acts on the outside gives the new outside. The git calls take
  first the directory the \<^verbatim>\<open>SimpleGit\<close> instance was made for.

  \<open>simpleGit\<close> is the factory, which throws for a directory it cannot use. \<open>parse\<close> is
  \<^verbatim>\<open>ConfigParser.parse\<close>, which reads and deserialises the file with fs, js-yaml and JSON
  before it validates; \<open>newTempDir\<close> is the value of
  \<^verbatim>\<open>path.join(this.getTempDir(), `tutorial-${Date.now()}`)\<close>; \<open>base64\<close> is
  \<^verbatim>\<open>Buffer.from(s).toString('base64')\<close>; \<open>showWarningMessage\<close> is the button the user
  picks, if any; \<open>revertOpenEditors\<close> stands for the commands run by
  \<^verbatim>\<open>refreshOpenEditors\<close>.
\<close>

record 'w host =
  simpleGit :: "string \<Rightarrow> 'w \<Rightarrow> string option"
  git_clone :: "string \<Rightarrow> string \<Rightarrow> 'w \<Rightarrow> string option \<times> 'w"
  git_checkout :: "string \<Rightarrow> string \<Rightarrow> 'w \<Rightarrow> string option \<times> 'w"
  git_status_isClean :: "string \<Rightarrow> 'w \<Rightarrow> string + bool"
  git_stash :: "string \<Rightarrow> string list \<Rightarrow> 'w \<Rightarrow> string option \<times> 'w"
  git_revparse :: "string \<Rightarrow> string list \<Rightarrow> 'w \<Rightarrow> string + string"
  git_diffSummary :: "string \<Rightarrow> string list \<Rightarrow> 'w \<Rightarrow> string + DiffSummaryFile list"
  git_diff :: "string \<Rightarrow> string list \<Rightarrow> 'w \<Rightarrow> string + string"
  existsSync :: "string \<Rightarrow> 'w \<Rightarrow> bool"
  path_join :: "string \<Rightarrow> string \<Rightarrow> string"
  parse :: "string \<Rightarrow> 'w \<Rightarrow> jsError + TutorialConfig"
  newTempDir :: "'w \<Rightarrow> string"
  base64 :: "string \<Rightarrow> string"
  showWarningMessage :: "'w \<Rightarrow> string option"
  revertOpenEditors :: "'w \<Rightarrow> string option \<times> 'w"

datatype gitCall =
  Clone string string
| Checkout string
| Status
| Stash "string list"
| RevParse "string list"
| DiffSummary "string list"
| Diff "string list"

datatype event = TutorialLoaded Tutorial | StepChanged StepNode

text \<open>
  The state of the program: the fields of the \<^verbatim>\<open>TutorialManager\<close> and of the
  \<^verbatim>\<open>GitService\<close> it owns (\<open>git\<close> is the directory of the \<^verbatim>\<open>SimpleGit\<close> instance, when
  there is one), the outside, and two histories kept for the properties: the git calls
  issued and the events fired, oldest first.
\<close>

record 'w system =
  currentTutorial :: "Tutorial option"
  repoPath :: "string option"
  git :: "string option"
  world :: 'w
  calls :: "gitCall list"
  fired :: "event list"

subsection \<open>GitService\<close>

definition initialize :: "'w host \<Rightarrow> string \<Rightarrow> 'w system \<Rightarrow> (jsError + unit) \<times> 'w system" where
  "initialize h path s =
     (let s1 = s\<lparr>repoPath := Some path\<rparr>
      in (case simpleGit h path (world s1) of
            Some msg \<Rightarrow> (Inl (Rejected msg), s1)
          | None \<Rightarrow> (Inr (), s1\<lparr>git := Some path\<rparr>)))"

definition getGit :: "'w system \<Rightarrow> jsError + string" where
  "getGit s =
     (case git s of
        None \<Rightarrow> Inl (Error ''Git service not initialized. Call initialize() first.'')
      | Some dir \<Rightarrow> Inr dir)"

definition clone :: "'w host \<Rightarrow> string \<Rightarrow> string \<Rightarrow> 'w system \<Rightarrow> (jsError + unit) \<times> 'w system" where
  "clone h url targetPath s =
     (case git_clone h url targetPath (world s) of (r, w) \<Rightarrow>
        let s1 = s\<lparr>world := w, calls := calls s @ [Clone url targetPath]\<rparr>
        in (case r of
              Some msg \<Rightarrow> (Inl (Rejected msg), s1)
            | None \<Rightarrow> initialize h targetPath s1))"

definition checkout :: "'w host \<Rightarrow> string \<Rightarrow> 'w system \<Rightarrow> (jsError + unit) \<times> 'w system" where
  "checkout h ref s =
     (case getGit s of
        Inl e \<Rightarrow> (Inl e, s)
      | Inr dir \<Rightarrow>
          (case git_checkout h dir ref (world s) of (r, w) \<Rightarrow>
             ((case r of Some msg \<Rightarrow> Inl (Rejected msg) | None \<Rightarrow> Inr ()),
              s\<lparr>world := w, calls := calls s @ [Checkout ref]\<rparr>)))"

definition hasUncommittedChanges :: "'w host \<Rightarrow> 'w system \<Rightarrow> (jsError + bool) \<times> 'w system" where
  "hasUncommittedChanges h s =
     (case getGit s of
        Inl e \<Rightarrow> (Inl e, s)
      | Inr dir \<Rightarrow>
          ((case git_status_isClean h dir (world s) of
              Inl msg \<Rightarrow> Inl (Rejected msg)
            | Inr clean \<Rightarrow> Inr (\<not> clean)),
           s\<lparr>calls := calls s @ [Status]\<rparr>))"

definition stash :: "'w host \<Rightarrow> 'w system \<Rightarrow> (jsError + unit) \<times> 'w system" where
  "stash h s =
     (case getGit s of
        Inl e \<Rightarrow> (Inl e, s)
      | Inr dir \<Rightarrow>
          (case git_stash h dir [''push'', ''-m'', ''tutorial-system-auto-stash''] (world s) of
             (r, w) \<Rightarrow>
               ((case r of Some msg \<Rightarrow> Inl (Rejected msg) | None \<Rightarrow> Inr ()),
                s\<lparr>world := w,
                  calls := calls s @ [Stash [''push'', ''-m'', ''tutorial-system-auto-stash'']]\<rparr>)))"

text \<open>\<^verbatim>\<open>getGit()\<close> stands in front of the \<^verbatim>\<open>try\<close>, the \<^verbatim>\<open>revparse\<close> inside it.\<close>

definition refExists :: "'w host \<Rightarrow> string \<Rightarrow> 'w system \<Rightarrow> (jsError + bool) \<times> 'w system" where
  "refExists h ref s =
     (case getGit s of
        Inl e \<Rightarrow> (Inl e, s)
      | Inr dir \<Rightarrow>
          (Inr (case git_revparse h dir [ref] (world s) of Inl msg \<Rightarrow> False | Inr out \<Rightarrow> True),
           s\<lparr>calls := calls s @ [RevParse [ref]]\<rparr>))"

definition emptyTree :: string where
  "emptyTree = ''4b825dc642cb6eb9a060e54bf8d69288fbee4904''"

definition getDiff :: "'w host \<Rightarrow> string \<Rightarrow> string \<Rightarrow> 'w system \<Rightarrow> (jsError + FileDiff list) \<times> 'w system" where
  "getDiff h fromRef toRef s =
     (case getGit s of
        Inl e \<Rightarrow> (Inl e, s)
      | Inr dir \<Rightarrow>
          let args = (if fromRef = [] then [emptyTree, toRef] else [fromRef, toRef]);
              s1 = s\<lparr>calls := calls s @ [DiffSummary args]\<rparr>
          in (case git_diffSummary h dir args (world s) of
                Inl msg \<Rightarrow> (Inl (Rejected msg), s1)
              | Inr files \<Rightarrow>
                  let s2 = s1\<lparr>calls := calls s1 @ [Diff args]\<rparr>
                  in (case git_diff h dir args (world s) of
                        Inl msg \<Rightarrow> (Inl (Rejected msg), s2)
                      | Inr diffOutput \<Rightarrow>
                          (Inr (map (fileDiffOf fromRef (parseDiffOutput diffOutput)) files),
                           s2))))"

subsection \<open>TutorialManager\<close>

definition isRemoteUrl :: "string \<Rightarrow> bool" where
  "isRemoteUrl source =
     (startsWith source ''http://'' \<or> startsWith source ''https://''
      \<or> startsWith source ''git@'' \<or> startsWith source ''git://'')"

fun findConfigIn :: "'w host \<Rightarrow> string \<Rightarrow> string list \<Rightarrow> 'w \<Rightarrow> string option" where
  "findConfigIn h dir [] w = None"
| "findConfigIn h dir (name # names) w =
     (let configPath = path_join h dir name
      in if existsSync h configPath w then Some configPath else findConfigIn h dir names w)"

definition findConfigFile :: "'w host \<Rightarrow> string \<Rightarrow> 'w \<Rightarrow> string option" where
  "findConfigFile h dir w =
     findConfigIn h dir [''tutorial.yaml'', ''tutorial.yml'', ''tutorial.json''] w"

text \<open>The loop of \<^verbatim>\<open>validateGitRefs\<close>, with \<^verbatim>\<open>invalidRefs\<close> as the accumulator.\<close>

fun collectInvalidRefs :: "'w host \<Rightarrow> StepConfig list \<Rightarrow> string list \<Rightarrow> 'w system
    \<Rightarrow> (jsError + string list) \<times> 'w system" where
  "collectInvalidRefs h [] invalidRefs s = (Inr invalidRefs, s)"
| "collectInvalidRefs h (step # steps) invalidRefs s =
     (case refExists h (cfg_gitRef step) s of
        (Inl e, s1) \<Rightarrow> (Inl e, s1)
      | (Inr exists, s1) \<Rightarrow>
          collectInvalidRefs h steps
            (if \<not> exists then invalidRefs @ [cfg_id step @ '': '' @ cfg_gitRef step]
             else invalidRefs)
            s1)"

definition validateGitRefs :: "'w host \<Rightarrow> TutorialConfig \<Rightarrow> 'w system \<Rightarrow> (jsError + unit) \<times> 'w system" where
  "validateGitRefs h config s =
     (case collectInvalidRefs h (tc_steps config) [] s of
        (Inl e, s1) \<Rightarrow> (Inl e, s1)
      | (Inr invalidRefs, s1) \<Rightarrow>
          if length invalidRefs > 0
          then (Inl (Error (msg_invalid_refs @ join_newline invalidRefs)), s1)
          else (Inr (), s1))"

text \<open>\<^verbatim>\<open>.replace(/[/+=]/g, '_')\<close> on the base64 text.\<close>

definition generateTutorialId :: "'w host \<Rightarrow> string \<Rightarrow> string" where
  "generateTutorialId h dir =
     map (\<lambda>c. if c = CHR ''/'' \<or> c = CHR ''+'' \<or> c = CHR ''='' then CHR ''_'' else c)
       (base64 h dir)"

text \<open>
  The first block of \<^verbatim>\<open>loadTutorial\<close>, which binds the adapter and gives the local
  \<^verbatim>\<open>repoPath\<close>.
\<close>

definition bindSource :: "'w host \<Rightarrow> string \<Rightarrow> 'w system \<Rightarrow> (jsError + string) \<times> 'w system" where
  "bindSource h source s =
     (if isRemoteUrl source then
        (let tempDir = newTempDir h (world s)
         in (case clone h source tempDir s of
               (Inl e, s1) \<Rightarrow> (Inl e, s1)
             | (Inr u, s1) \<Rightarrow> (Inr tempDir, s1)))
      else
        (case initialize h source s of
           (Inl e, s1) \<Rightarrow> (Inl e, s1)
         | (Inr u, s1) \<Rightarrow> (Inr source, s1)))"

text \<open>\<^verbatim>\<open>!configPath\<close> holds for \<^verbatim>\<open>null\<close> and for the empty string.\<close>

definition loadTutorial :: "'w host \<Rightarrow> string \<Rightarrow> 'w system \<Rightarrow> (jsError + Tutorial) \<times> 'w system" where
  "loadTutorial h source s =
     (case bindSource h source s of
        (Inl e, s1) \<Rightarrow> (Inl e, s1)
      | (Inr dir, s1) \<Rightarrow>
          (case findConfigFile h dir (world s1) of
             None \<Rightarrow> (Inl (Error msg_config_not_found), s1)
           | Some configPath \<Rightarrow>
               if configPath = [] then (Inl (Error msg_config_not_found), s1)
               else
                 (case parse h configPath (world s1) of
                    Inl e \<Rightarrow> (Inl e, s1)
                  | Inr config \<Rightarrow>
                      (case validateGitRefs h config s1 of
                         (Inl e, s2) \<Rightarrow> (Inl e, s2)
                       | (Inr u, s2) \<Rightarrow>
                           let steps = buildStepTree (tc_steps config);
                               tutorial = \<lparr>tut_id = generateTutorialId h dir,
                                           tut_name = tc_name config,
                                           tut_description = tc_description config,
                                           tut_rootPath = dir,
                                           tut_steps = steps,
                                           tut_currentStepId = None\<rparr>
                           in (Inr tutorial,
                               s2\<lparr>currentTutorial := Some tutorial,
                                  fired := fired s2 @ [TutorialLoaded tutorial]\<rparr>)))))"

text \<open>
  The block \<^verbatim>\<open>if (hasChanges) { ... }\<close> of \<^verbatim>\<open>navigateToStep\<close>. The result \<open>False\<close> is
  the \<^verbatim>\<open>return\<close> of the last branch, taken for the cancel button and for a dismissed
  dialogue; \<open>True\<close> goes on to the checkout.
\<close>

definition dirtyGate :: "'w host \<Rightarrow> bool \<Rightarrow> 'w system \<Rightarrow> (jsError + bool) \<times> 'w system" where
  "dirtyGate h hasChanges s =
     (if hasChanges then
        (let choice = showWarningMessage h (world s)
         in if choice = Some choice_stash then
              (case stash h s of
                 (Inl e, s1) \<Rightarrow> (Inl e, s1)
               | (Inr u, s1) \<Rightarrow> (Inr True, s1))
            else if choice = Some choice_discard then (Inr True, s)
            else (Inr False, s))
      else (Inr True, s))"

text \<open>
  \<^verbatim>\<open>withProgress\<close> runs its task and passes on its rejection, so the checkout stands
  in its place. One call runs from its start to its end with no other call in between.
\<close>

definition navigateToStep :: "'w host \<Rightarrow> string \<Rightarrow> 'w system \<Rightarrow> (jsError + unit) \<times> 'w system" where
  "navigateToStep h stepId s =
     (case currentTutorial s of
        None \<Rightarrow> (Inl (Error msg_no_tutorial_loaded), s)
      | Some tutorial \<Rightarrow>
          (case find (\<lambda>n. node_id n = stepId) (tut_steps tutorial) of
             None \<Rightarrow> (Inl (Error (msg_step_not_found @ stepId)), s)
           | Some step \<Rightarrow>
               (case hasUncommittedChanges h s of
                  (Inl e, s1) \<Rightarrow> (Inl e, s1)
                | (Inr hasChanges, s1) \<Rightarrow>
                    (case dirtyGate h hasChanges s1 of
                       (Inl e, s2) \<Rightarrow> (Inl e, s2)
                     | (Inr go, s2) \<Rightarrow>
                         if \<not> go then (Inr (), s2)
                         else
                           (case checkout h (node_gitRef step) s2 of
                              (Inl e, s3) \<Rightarrow> (Inl e, s3)
                            | (Inr u, s3) \<Rightarrow>
                                let s4 = s3\<lparr>currentTutorial :=
                                              Some (tutorial\<lparr>tut_currentStepId := Some stepId\<rparr>),
                                            fired := fired s3 @ [StepChanged step]\<rparr>
                                in (case revertOpenEditors h (world s4) of
                                      (r, w) \<Rightarrow>
                                        ((case r of
                                            Some msg \<Rightarrow> Inl (Rejected msg)
                                          | None \<Rightarrow> Inr ()),
                                         s4\<lparr>world := w\<rparr>)))))))"

section \<open>Reading a tracker, and sample inputs\<close>


definition completedOf :: "ProgressTracker \<Rightarrow> string \<Rightarrow> string list" where
  "completedOf t tutorialId =
     (case progressCache t tutorialId of None \<Rightarrow> [] | Some p \<Rightarrow> prog_completedSteps p)"


text \<open>
  A tracker bound to storage that holds one record: tutorial \<open>t\<close>, step \<open>s1\<close> current and
  completed, last access at time 5.
\<close>

definition progress0 :: TutorialProgress where
  "progress0 = \<lparr>prog_tutorialId = ''t'', prog_currentStepId = Some ''s1'',
                prog_completedSteps = [''s1''], prog_lastAccessTime = 5\<rparr>"

definition tracker0 :: ProgressTracker where
  "tracker0 = \<lparr>globalState = Some [], progressCache = [''t'' \<mapsto> progress0]\<rparr>"


section \<open>Reading a step graph\<close>

text \<open>
  The inverse of the declared \<open>parentId\<close> relation: the ids of the configurations that
  name \<open>pid\<close> as their parent, in the order of the input.
\<close>

definition childrenOf :: "StepConfig list \<Rightarrow> string \<Rightarrow> string list" where
  "childrenOf configs pid = map cfg_id (filter (\<lambda>c. cfg_parentId c = Some pid) configs)"

text \<open>The distinct elements of a list in the order of their first occurrence.\<close>

definition firstSeen :: "'a list \<Rightarrow> 'a list" where
  "firstSeen xs = foldl (\<lambda>seen x. if x \<in> set seen then seen else seen @ [x]) [] xs"

text \<open>The last configuration of a list that carries a given id.\<close>

definition lastWithId :: "StepConfig list \<Rightarrow> string \<Rightarrow> StepConfig option" where
  "lastWithId configs i = find (\<lambda>c. cfg_id c = i) (rev configs)"

text \<open>
  Two inputs: a branching list with distinct ids whose last step names a parent that
  is not declared, and a list in which the id \<open>a\<close> occurs twice.
\<close>

definition step_cfg :: "string \<Rightarrow> string \<Rightarrow> string option \<Rightarrow> StepConfig" where
  "step_cfg i r p =
     \<lparr>cfg_id = i, cfg_title = i, cfg_description = None, cfg_gitRef = r,
      cfg_parentId = p, cfg_explanation = ''doc.md''\<rparr>"

definition configs_branching :: "StepConfig list" where
  "configs_branching =
     [step_cfg ''s1'' ''v1'' None, step_cfg ''s2a'' ''v2'' (Some ''s1''),
      step_cfg ''s2b'' ''v3'' (Some ''s1''), step_cfg ''s3'' ''v4'' (Some ''nope'')]"

definition configs_duplicate :: "StepConfig list" where
  "configs_duplicate =
     [step_cfg ''a'' ''v1'' None, step_cfg ''b'' ''v2'' (Some ''a''), step_cfg ''a'' ''v3'' None]"

section \<open>Reading a diff\<close>

text \<open>
  A line that opens a file or a hunk, and the hunk that the lines of a diff describe
  where they begin with a hunk header: its numbers are those of the header, its content
  is the header followed by the lines that begin with \<open>+\<close>, \<open>-\<close> or a space among the
  lines up to the next header, joined by newlines.
\<close>

definition isHeader :: "string \<Rightarrow> bool" where
  "isHeader line = (fileMatch line \<noteq> None \<or> hunkMatch line \<noteq> None)"

definition notHeader :: "string \<Rightarrow> bool" where
  "notHeader line = (\<not> isHeader line)"

fun hunkStarting :: "string list \<Rightarrow> DiffHunk option" where
  "hunkStarting [] = None"
| "hunkStarting (h # rest) =
     (case hunkMatch h of
        None \<Rightarrow> None
      | Some groups \<Rightarrow>
          Some ((newHunk groups)
                  \<lparr>content := join_newline (h # filter isHunkLine (takeWhile notHeader rest))\<rparr>))"

text \<open>
  The same hunk while the parser is at work on the lines read so far: \<open>openHunk\<close> for
  the hunk being collected, with the lines collected for it; \<open>closedHunk\<close> for a hunk
  that a later header has closed or, when \<open>atEnd\<close> holds, that the end of the input may
  have closed.
\<close>

definition openHunk :: "string list \<Rightarrow> DiffHunk \<Rightarrow> string list \<Rightarrow> bool" where
  "openHunk seen hunk collected =
     (\<exists>pre h groups body.
        seen = pre @ h # body \<and> hunkMatch h = Some groups
        \<and> list_all notHeader body
        \<and> hunk = newHunk groups \<and> collected = h # filter isHunkLine body)"

definition closedHunk :: "bool \<Rightarrow> string list \<Rightarrow> DiffHunk \<Rightarrow> bool" where
  "closedHunk atEnd seen hunk =
     (\<exists>pre h groups body rest.
        seen = pre @ h # body @ rest \<and> hunkMatch h = Some groups
        \<and> list_all notHeader body
        \<and> (case rest of [] \<Rightarrow> atEnd | l # ls \<Rightarrow> isHeader l)
        \<and> hunk = (newHunk groups)\<lparr>content := join_newline (h # filter isHunkLine body)\<rparr>)"

definition parseInv :: "string list \<Rightarrow> ParseState \<Rightarrow> bool" where
  "parseInv seen st =
     ((\<forall>f hs hk. hunksMap st f = Some hs \<and> hk \<in> set hs \<longrightarrow> closedHunk False seen hk)
      \<and> (\<forall>hk. currentHunk st = Some hk \<longrightarrow>
            (\<exists>f. currentFile st = Some f \<and> f \<noteq> [])
            \<and> openHunk seen hk (hunkContent st)))"

text \<open>Whether a list of hunks begins with a hunk that has no old lines.\<close>

definition startsFromNothing :: "DiffHunk list \<Rightarrow> bool" where
  "startsFromNothing hunks = (case hunks of h # hs \<Rightarrow> oldLines h = 0 | [] \<Rightarrow> False)"

section \<open>Reading the orchestrator, and a sample host\<close>

text \<open>
  The outside in which \<^verbatim>\<open>navigateToStep\<close> issues its checkout: the one it starts in,
  or what the stash leaves of it when the tree is dirty and the user picks the stash
  button.
\<close>

definition worldAtCheckout :: "'w host \<Rightarrow> string \<Rightarrow> 'w \<Rightarrow> 'w" where
  "worldAtCheckout h dir w =
     (case git_status_isClean h dir w of
        Inr clean \<Rightarrow>
          if \<not> clean \<and> showWarningMessage h w = Some choice_stash
          then snd (git_stash h dir [''push'', ''-m'', ''tutorial-system-auto-stash''] w)
          else w
      | Inl msg \<Rightarrow> w)"

text \<open>The git calls issued between two states.\<close>

definition newCalls :: "'w system \<Rightarrow> 'w system \<Rightarrow> gitCall list" where
  "newCalls s s' = drop (length (calls s)) (calls s')"

text \<open>
  The steps of a configuration whose \<^verbatim>\<open>gitRef\<close> does not resolve, and the line that
  \<^verbatim>\<open>validateGitRefs\<close> writes for a step.
\<close>

definition offending :: "'w host \<Rightarrow> string \<Rightarrow> 'w \<Rightarrow> TutorialConfig \<Rightarrow> StepConfig list" where
  "offending h dir w config =
     filter (\<lambda>step. case git_revparse h dir [cfg_gitRef step] w of
                       Inl msg \<Rightarrow> True
                     | Inr out \<Rightarrow> False)
       (tc_steps config)"

definition refLine :: "StepConfig \<Rightarrow> string" where
  "refLine step = cfg_id step @ '': '' @ cfg_gitRef step"

definition revParseOf :: "StepConfig \<Rightarrow> gitCall" where
  "revParseOf step = RevParse [cfg_gitRef step]"

text \<open>
  A small outside: the commit that is checked out, whether the tree is dirty, and the
  button the user will pick. The repository knows the refs \<open>v1\<close> and \<open>v2\<close>; two
  directories hold a configuration.
\<close>

record world0 =
  w_head :: string
  w_dirty :: bool
  w_answer :: "string option"

definition config_good :: TutorialConfig where
  "config_good =
     \<lparr>tc_name = ''good'', tc_description = ''d'', tc_version = ''1'',
      tc_steps = [step_cfg ''s1'' ''v1'' None, step_cfg ''s2'' ''v2'' (Some ''s1'')]\<rparr>"

definition config_broken :: TutorialConfig where
  "config_broken =
     \<lparr>tc_name = ''broken'', tc_description = ''d'', tc_version = ''1'',
      tc_steps = [step_cfg ''s1'' ''x1'' None, step_cfg ''s2'' ''v2'' None,
                  step_cfg ''s3'' ''x3'' None]\<rparr>"

definition diff_text :: string where
  "diff_text = join_newline
     [''diff --git a/a.txt b/a.txt'',
      ''--- a/a.txt'',
      ''+++ b/a.txt'',
      ''@@ -1,3 +1,5 @@'',
      '' one'',
      ''+two'',
      ''+three'',
      '' four'',
      '' five'',
      ''diff --git a/a => b b/a => b'',
      ''--- /dev/null'',
      ''+++ b/a => b'',
      ''@@ -0,0 +1 @@'',
      ''+new'',
      '''']"

definition host0 :: "world0 host" where
  "host0 =
     \<lparr>simpleGit = (\<lambda>dir w. None),
      git_clone = (\<lambda>url target w. (None, w)),
      git_checkout = (\<lambda>dir ref w.
         if ref = ''v1'' \<or> ref = ''v2'' then (None, w\<lparr>w_head := ref\<rparr>)
         else (Some ''pathspec did not match'', w)),
      git_status_isClean = (\<lambda>dir w. Inr (\<not> w_dirty w)),
      git_stash = (\<lambda>dir args w. (None, w\<lparr>w_dirty := False\<rparr>)),
      git_revparse = (\<lambda>dir args w.
         if args = [''v1''] \<or> args = [''v2''] then Inr ''ok'' else Inl ''unknown revision''),
      git_diffSummary = (\<lambda>dir args w. Inr [TextFile ''a.txt'' 2 0, TextFile ''a => b'' 1 0]),
      git_diff = (\<lambda>dir args w. Inr diff_text),
      existsSync = (\<lambda>p w. p = ''/good/tutorial.yaml'' \<or> p = ''/broken/tutorial.json''),
      path_join = (\<lambda>a b. a @ ''/'' @ b),
      parse = (\<lambda>p w. if p = ''/good/tutorial.yaml'' then Inr config_good
                        else if p = ''/broken/tutorial.json'' then Inr config_broken
                        else Inl (Error ''Unsupported config file format'')),
      newTempDir = (\<lambda>w. ''/tmp/interactive-tutorial/tutorial-0''),
      base64 = (\<lambda>p. p),
      showWarningMessage = w_answer,
      revertOpenEditors = (\<lambda>w. (None, w))\<rparr>"

definition tutorial0 :: Tutorial where
  "tutorial0 =
     \<lparr>tut_id = ''_good'', tut_name = ''good'', tut_description = ''d'',
      tut_rootPath = ''/good'',
      tut_steps = buildStepTree
        [step_cfg ''s1'' ''v1'' None, step_cfg ''s2'' ''v2'' (Some ''s1''),
         step_cfg ''s3'' ''gone'' (Some ''s2'')],
      tut_currentStepId = Some ''s1''\<rparr>"

text \<open>
  Three states of the program: nothing loaded; \<open>tutorial0\<close> loaded on a dirty tree where
  the user will pick the cancel button; the same on a clean tree.
\<close>

definition sys_unloaded :: "world0 system" where
  "sys_unloaded =
     \<lparr>currentTutorial = None, repoPath = None, git = None,
      world = \<lparr>w_head = ''v0'', w_dirty = False, w_answer = None\<rparr>,
      calls = [], fired = []\<rparr>"

definition sys_dirty :: "world0 system" where
  "sys_dirty =
     \<lparr>currentTutorial = Some tutorial0, repoPath = Some ''/good'', git = Some ''/good'',
      world = \<lparr>w_head = ''v1'', w_dirty = True, w_answer = Some choice_cancel\<rparr>,
      calls = [], fired = []\<rparr>"

definition sys_clean :: "world0 system" where
  "sys_clean =
     \<lparr>currentTutorial = Some tutorial0, repoPath = Some ''/good'', git = Some ''/good'',
      world = \<lparr>w_head = ''v1'', w_dirty = False, w_answer = None\<rparr>,
      calls = [], fired = []\<rparr>"

section \<open>Properties of the progress tracker\<close>

lemma getProgress_cached:
  "progressCache t tid = Some p \<Longrightarrow> getProgress now tid t = (p, t)"
  by (simp add: getProgress_def)







text \<open>
  C10. Selecting again the step that is already current leaves \<open>completedSteps\<close> as it
  was: the cache entry of the tutorial keeps every field except \<open>lastAccessTime\<close>, which
  becomes the current time (\<open>currentStepId\<close> is assigned the value it already had), and
  no other tutorial's entry changes.
\<close>

theorem setCurrentStep_same_step:
  assumes "progressCache t tid = Some p"
    and "prog_currentStepId p = Some sid"
  shows "progressCache (setCurrentStep now tid sid t)
           = (progressCache t)(tid \<mapsto> p\<lparr>prog_lastAccessTime := now\<rparr>)
         \<and> completedOf (setCurrentStep now tid sid t) tid = prog_completedSteps p"
proof -
  have cache: "progressCache (setCurrentStep now tid sid t)
                 = (progressCache t)(tid \<mapsto> p\<lparr>prog_currentStepId := Some sid,
                                                 prog_lastAccessTime := now\<rparr>)"
    using assms
    by (simp add: setCurrentStep_def getProgress_cached saveToStorage_def
             split: option.splits)
  have same: "p\<lparr>prog_currentStepId := Some sid, prog_lastAccessTime := now\<rparr>
                = p\<lparr>prog_lastAccessTime := now\<rparr>"
    using assms(2) by simp
  show ?thesis
    unfolding completedOf_def cache same by simp
qed

theorem setCurrentStep_same_step_witness:
  "progressCache tracker0 ''t'' = Some progress0
   \<and> prog_currentStepId progress0 = Some ''s1''
   \<and> progressCache (setCurrentStep 9 ''t'' ''s1'' tracker0)
       = (progressCache tracker0)(''t'' \<mapsto> progress0\<lparr>prog_lastAccessTime := 9\<rparr>)
   \<and> completedOf (setCurrentStep 9 ''t'' ''s1'' tracker0) ''t'' = [''s1'']"
proof -
  have a: "progressCache tracker0 ''t'' = Some progress0"
    by (simp add: tracker0_def)
  have b: "prog_currentStepId progress0 = Some ''s1''"
    by (simp add: progress0_def)
  have c: "prog_completedSteps progress0 = [''s1'']"
    by (simp add: progress0_def)
  show ?thesis
    using setCurrentStep_same_step [OF a b, of 9] a b c by simp
qed

section \<open>Properties of the orchestrator\<close>

subsection \<open>The adapter calls\<close>

lemma hasUncommittedChanges_bound:
  "git s = Some dir \<Longrightarrow>
   hasUncommittedChanges h s
     = ((case git_status_isClean h dir (world s) of
           Inl msg \<Rightarrow> Inl (Rejected msg)
         | Inr clean \<Rightarrow> Inr (\<not> clean)),
        s\<lparr>calls := calls s @ [Status]\<rparr>)"
  by (simp add: hasUncommittedChanges_def getGit_def)

lemma hasUncommittedChanges_unbound:
  "git s = None \<Longrightarrow> \<exists>e. hasUncommittedChanges h s = (Inl e, s)"
  by (simp add: hasUncommittedChanges_def getGit_def)

lemma hasUncommittedChanges_frame:
  assumes "hasUncommittedChanges h s = (r, s1)"
  shows "currentTutorial s1 = currentTutorial s" and "fired s1 = fired s"
    and "world s1 = world s" and "git s1 = git s"
    and "calls s1 = calls s \<or> calls s1 = calls s @ [Status]"
  using assms
  by (auto simp: hasUncommittedChanges_def getGit_def split: option.splits)

lemma stash_frame:
  assumes "stash h s = (r, s1)"
  shows "currentTutorial s1 = currentTutorial s" and "fired s1 = fired s"
    and "git s1 = git s"
    and "calls s1 = calls s
         \<or> calls s1 = calls s @ [Stash [''push'', ''-m'', ''tutorial-system-auto-stash'']]"
  using assms
  by (auto simp: stash_def getGit_def split: option.splits prod.splits)

lemma stash_world:
  assumes "stash h s = (Inr u, s1)" and "git s = Some dir"
  shows "world s1 = snd (git_stash h dir [''push'', ''-m'', ''tutorial-system-auto-stash''] (world s))"
  using assms
  by (auto simp: stash_def getGit_def split: option.splits prod.splits)

lemma dirtyGate_frame:
  assumes "dirtyGate h hasChanges s = (r, s1)"
  shows "currentTutorial s1 = currentTutorial s" and "fired s1 = fired s"
    and "git s1 = git s"
    and "\<forall>ref. Checkout ref \<notin> set (drop (length (calls s)) (calls s1))"
proof -
  have "currentTutorial s1 = currentTutorial s \<and> fired s1 = fired s \<and> git s1 = git s
        \<and> (calls s1 = calls s
            \<or> calls s1 = calls s @ [Stash [''push'', ''-m'', ''tutorial-system-auto-stash'']])"
    using assms stash_frame [of h s]
    by (auto simp: dirtyGate_def Let_def split: if_splits prod.splits sum.splits)
  then show "currentTutorial s1 = currentTutorial s" and "fired s1 = fired s"
    and "git s1 = git s"
    and "\<forall>ref. Checkout ref \<notin> set (drop (length (calls s)) (calls s1))"
    by auto
qed

lemma dirtyGate_cancel:
  assumes "showWarningMessage h (world s) \<noteq> Some choice_stash"
    and "showWarningMessage h (world s) \<noteq> Some choice_discard"
  shows "dirtyGate h True s = (Inr False, s)"
  using assms by (simp add: dirtyGate_def)

lemma dirtyGate_world:
  assumes "dirtyGate h (\<not> clean) s = (Inr True, s1)" and "git s = Some dir"
    and "git_status_isClean h dir (world s) = Inr clean"
  shows "world s1 = worldAtCheckout h dir (world s)"
  using assms stash_world [of h s _ s1 dir]
  by (auto simp: dirtyGate_def worldAtCheckout_def Let_def
           split: if_splits prod.splits sum.splits)

lemma checkout_bound:
  "git s = Some dir \<Longrightarrow>
   checkout h ref s
     = ((case fst (git_checkout h dir ref (world s)) of
           Some msg \<Rightarrow> Inl (Rejected msg)
         | None \<Rightarrow> Inr ()),
        s\<lparr>world := snd (git_checkout h dir ref (world s)),
          calls := calls s @ [Checkout ref]\<rparr>)"
  by (simp add: checkout_def getGit_def split: prod.splits)

lemma checkout_unbound:
  "git s = None \<Longrightarrow> \<exists>e. checkout h ref s = (Inl e, s)"
  by (simp add: checkout_def getGit_def)

subsection \<open>navigateToStep\<close>

lemma find_step_None:
  "(find (\<lambda>n. node_id n = stepId) steps = None) = (stepId \<notin> node_id ` set steps)"
  by (auto simp: find_None_iff)

text \<open>
  C6, as the code has it. With no tutorial bound \<open>navigateToStep\<close> fails with a plain
  \<^verbatim>\<open>Error\<close> whose message is the text "no tutorial loaded" of the source, and with a
  step id that no node of the current graph carries it fails with a plain \<^verbatim>\<open>Error\<close>
  whose message is the text "step does not exist: " followed by the id. Neither is an
  instance of \<^verbatim>\<open>TutorialError\<close>, and the state is left as it was.
\<close>

theorem navigateToStep_plain_errors:
  "(currentTutorial s = None \<longrightarrow>
      navigateToStep h stepId s = (Inl (Error msg_no_tutorial_loaded), s))
   \<and> (\<forall>t. currentTutorial s = Some t \<and> stepId \<notin> node_id ` set (tut_steps t) \<longrightarrow>
        navigateToStep h stepId s = (Inl (Error (msg_step_not_found @ stepId)), s))
   \<and> \<not> instanceofTutorialError (Error msg_no_tutorial_loaded)
   \<and> \<not> instanceofTutorialError (Error (msg_step_not_found @ stepId))"
  by (auto simp: navigateToStep_def find_step_None [symmetric])

lemma tutorial0_ids:
  "map node_id (tut_steps tutorial0) = [''s1'', ''s2'', ''s3'']"
  by (simp add: tutorial0_def buildStepTree_def step_cfg_def newNode_def linkChild_def)

theorem navigateToStep_plain_errors_witness:
  "currentTutorial sys_unloaded = None
   \<and> navigateToStep host0 ''s1'' sys_unloaded = (Inl (Error msg_no_tutorial_loaded), sys_unloaded)
   \<and> currentTutorial sys_clean = Some tutorial0
   \<and> ''zz'' \<notin> node_id ` set (tut_steps tutorial0)
   \<and> navigateToStep host0 ''zz'' sys_clean = (Inl (Error (msg_step_not_found @ ''zz'')), sys_clean)"
proof -
  have a: "currentTutorial sys_unloaded = None"
    by (simp add: sys_unloaded_def)
  have b: "currentTutorial sys_clean = Some tutorial0"
    by (simp add: sys_clean_def)
  have "set (map node_id (tut_steps tutorial0)) = {''s1'', ''s2'', ''s3''}"
    unfolding tutorial0_ids by simp
  then have c: "''zz'' \<notin> node_id ` set (tut_steps tutorial0)"
    by simp
  note p1 = navigateToStep_plain_errors [of sys_unloaded host0 "''s1''", THEN conjunct1,
              rule_format, OF a]
  note p2 = navigateToStep_plain_errors [of sys_clean host0 "''zz''", THEN conjunct2,
              THEN conjunct1, rule_format, OF conjI [OF b c]]
  show ?thesis
    by (intro conjI) (rule a p1 b c p2)+
qed

text \<open>
  The claim C6 as it is worded fails: what \<open>navigateToStep\<close> raises with no tutorial
  bound is not the \<^verbatim>\<open>TutorialNotLoadedError\<close> of errors.ts, and what it raises for an
  unknown step is not the \<^verbatim>\<open>StepNotFoundError\<close>; both are untyped.
\<close>

theorem navigateToStep_typed_error_counterexample:
  "fst (navigateToStep host0 ''s1'' sys_unloaded) = Inl (Error msg_no_tutorial_loaded)
   \<and> fst (navigateToStep host0 ''s1'' sys_unloaded) \<noteq> Inl TutorialNotLoadedError
   \<and> fst (navigateToStep host0 ''zz'' sys_clean) = Inl (Error (msg_step_not_found @ ''zz''))
   \<and> fst (navigateToStep host0 ''zz'' sys_clean) \<noteq> Inl (StepNotFoundError ''zz'')
   \<and> instanceofTutorialError TutorialNotLoadedError
   \<and> instanceofTutorialError (StepNotFoundError ''zz'')
   \<and> \<not> instanceofTutorialError (Error msg_no_tutorial_loaded)
   \<and> \<not> instanceofTutorialError (Error (msg_step_not_found @ ''zz''))"
proof -
  have a: "navigateToStep host0 ''s1'' sys_unloaded
             = (Inl (Error msg_no_tutorial_loaded), sys_unloaded)"
    by (simp add: navigateToStep_def sys_unloaded_def)
  have "set (map node_id (tut_steps tutorial0)) = {''s1'', ''s2'', ''s3''}"
    unfolding tutorial0_ids by simp
  then have "''zz'' \<notin> node_id ` set (tut_steps tutorial0)"
    by simp
  then have "find (\<lambda>n. node_id n = ''zz'') (tut_steps tutorial0) = None"
    by (simp add: find_step_None)
  then have b: "navigateToStep host0 ''zz'' sys_clean
                  = (Inl (Error (msg_step_not_found @ ''zz'')), sys_clean)"
    by (simp add: navigateToStep_def sys_clean_def)
  show ?thesis
    unfolding a b by (simp add: TutorialNotLoadedError_def StepNotFoundError_def)
qed

lemma navigateToStep_early:
  assumes "currentTutorial s = None
           \<or> (\<exists>t. currentTutorial s = Some t \<and> find (\<lambda>n. node_id n = stepId) (tut_steps t) = None)
           \<or> git s = None"
  shows "snd (navigateToStep h stepId s) = s"
  using assms hasUncommittedChanges_unbound [of s h]
  by (auto simp: navigateToStep_def split: option.splits)

text \<open>
  The run of \<open>navigateToStep\<close> once a tutorial is bound, the step is found and the
  adapter is bound: status, dirty gate, checkout, update.
\<close>

lemma navigateToStep_run:
  assumes t: "currentTutorial s = Some t"
    and f: "find (\<lambda>n. node_id n = stepId) (tut_steps t) = Some step"
    and g: "git s = Some dir"
    and n: "navigateToStep h stepId s = (r, s')"
  shows "(currentTutorial s' = currentTutorial s
          \<and> (\<forall>ref. Checkout ref \<notin> set (newCalls s s') \<or>
                (ref = node_gitRef step
                 \<and> fst (git_checkout h dir ref (worldAtCheckout h dir (world s))) \<noteq> None)))
         \<or> (fst (git_checkout h dir (node_gitRef step) (worldAtCheckout h dir (world s))) = None
            \<and> Checkout (node_gitRef step) \<in> set (newCalls s s')
            \<and> currentTutorial s' = Some (t\<lparr>tut_currentStepId := Some stepId\<rparr>))"
proof -
  define s1 where "s1 = s\<lparr>calls := calls s @ [Status]\<rparr>"
  have s1: "currentTutorial s1 = Some t" "git s1 = Some dir" "world s1 = world s"
    "calls s1 = calls s @ [Status]"
    by (simp_all add: s1_def t g)
  have hu: "hasUncommittedChanges h s
              = ((case git_status_isClean h dir (world s) of
                    Inl msg \<Rightarrow> Inl (Rejected msg)
                  | Inr clean \<Rightarrow> Inr (\<not> clean)), s1)"
    unfolding s1_def by (rule hasUncommittedChanges_bound [OF g])
  show ?thesis
  proof (cases "git_status_isClean h dir (world s)")
    case (Inl msg)
    then have "s' = s1"
      using n by (simp add: navigateToStep_def t f hu)
    then show ?thesis
      by (simp add: s1 t newCalls_def)
  next
    case (Inr clean)
    obtain gr s2 where dg: "dirtyGate h (\<not> clean) s1 = (gr, s2)"
      by (cases "dirtyGate h (\<not> clean) s1")
    note fr = dirtyGate_frame [OF dg]
    have c2: "\<forall>ref. Checkout ref \<notin> set (drop (length (calls s)) (calls s2))"
    proof -
      have "\<forall>ref. Checkout ref \<notin> set (drop (length (calls s1)) (calls s2))"
        by (rule fr(4))
      moreover have "length (calls s1) = Suc (length (calls s))"
        by (simp add: s1)
      moreover have "calls s2 = calls s \<or> calls s2 = calls s @ [Status]
                     \<or> calls s2 = calls s @ [Status, Stash [''push'', ''-m'', ''tutorial-system-auto-stash'']]"
        using dg stash_frame(4) [of h s1] s1(4)
        by (auto simp: dirtyGate_def Let_def split: if_splits prod.splits sum.splits)
      ultimately show ?thesis
        by auto
    qed
    have len: "length (calls s) \<le> length (calls s2)"
      using dg stash_frame(4) [of h s1] s1(4)
      by (auto simp: dirtyGate_def Let_def split: if_splits prod.splits sum.splits)
    show ?thesis
    proof (cases gr)
      case (Inl e)
      then have "s' = s2"
        using n by (simp add: navigateToStep_def t f hu Inr dg)
      then show ?thesis
        using fr s1 c2 t by (simp add: newCalls_def)
    next
      case go: (Inr go)
      show ?thesis
      proof (cases go)
        case False
        then have "s' = s2"
          using n go by (simp add: navigateToStep_def t f hu Inr dg)
        then show ?thesis
          using fr s1 c2 t by (simp add: newCalls_def)
      next
        case True
        have w2: "world s2 = worldAtCheckout h dir (world s)"
          using dirtyGate_world [of h clean s1 s2 dir] dg go True s1 Inr by simp
        have g2: "git s2 = Some dir"
          using fr s1 by simp
        note co = checkout_bound [OF g2, of h "node_gitRef step"]
        let ?res = "git_checkout h dir (node_gitRef step) (worldAtCheckout h dir (world s))"
        show ?thesis
        proof (cases "fst ?res")
          case None
          then have "currentTutorial s' = Some (t\<lparr>tut_currentStepId := Some stepId\<rparr>)
                     \<and> calls s' = calls s2 @ [Checkout (node_gitRef step)]"
            using n go True
            by (auto simp: navigateToStep_def t f hu Inr dg co w2 Let_def split: prod.splits)
          then show ?thesis
            using None len by (simp add: newCalls_def)
        next
          case (Some msg)
          then have "currentTutorial s' = currentTutorial s2
                     \<and> calls s' = calls s2 @ [Checkout (node_gitRef step)]"
            using n go True
            by (auto simp: navigateToStep_def t f hu Inr dg co w2 Let_def split: prod.splits)
          then show ?thesis
            using Some len c2 fr s1 t by (auto simp: newCalls_def)
        qed
      qed
    qed
  qed
qed

lemma navigateToStep_cancel:
  assumes g: "git s = Some dir"
    and d: "git_status_isClean h dir (world s) = Inr False"
    and c1: "showWarningMessage h (world s) \<noteq> Some choice_stash"
    and c2: "showWarningMessage h (world s) \<noteq> Some choice_discard"
    and n: "navigateToStep h stepId s = (r, s')"
  shows "world s' = world s \<and> currentTutorial s' = currentTutorial s
         \<and> (calls s' = calls s \<or> calls s' = calls s @ [Status])"
proof (cases "\<exists>t step. currentTutorial s = Some t
                \<and> find (\<lambda>n. node_id n = stepId) (tut_steps t) = Some step")
  case False
  then have "snd (navigateToStep h stepId s) = s"
    by (intro navigateToStep_early) (cases "currentTutorial s"; auto)
  then show ?thesis
    using n by simp
next
  case True
  then obtain t step where t: "currentTutorial s = Some t"
    and f: "find (\<lambda>n. node_id n = stepId) (tut_steps t) = Some step"
    by blast
  define s1 where "s1 = s\<lparr>calls := calls s @ [Status]\<rparr>"
  have hu: "hasUncommittedChanges h s = (Inr True, s1)"
    unfolding s1_def using hasUncommittedChanges_bound [OF g, of h] d by simp
  have "dirtyGate h True s1 = (Inr False, s1)"
    by (rule dirtyGate_cancel) (simp_all add: s1_def c1 c2)
  then have "s' = s1"
    using n by (simp add: navigateToStep_def t f hu)
  then show ?thesis
    by (simp add: s1_def)
qed

text \<open>
  C2. For a run of \<open>navigateToStep\<close> from state \<open>s\<close> to state \<open>s'\<close>:
  \<^item> when the tree is dirty and the user neither stashes nor discards, the outside
    (and with it HEAD) and the current tutorial with its \<open>currentStepId\<close> are as before,
    and no checkout is among the git calls of the run;
  \<^item> when git rejects the checkout of the step's ref, the current tutorial with its
    \<open>currentStepId\<close> is as before;
  \<^item> when the current tutorial differs afterwards, then the checkout of the step's ref
    was issued and accepted, and the only difference is that \<open>currentStepId\<close> is the
    target step id.
\<close>

theorem navigateToStep_atomic:
  assumes "navigateToStep h stepId s = (r, s')"
  shows "(\<forall>dir. git s = Some dir \<and> git_status_isClean h dir (world s) = Inr False
            \<and> showWarningMessage h (world s) \<noteq> Some choice_stash
            \<and> showWarningMessage h (world s) \<noteq> Some choice_discard \<longrightarrow>
            world s' = world s \<and> currentTutorial s' = currentTutorial s
            \<and> (\<forall>ref. Checkout ref \<notin> set (newCalls s s')))
         \<and> (\<forall>dir t step msg.
               git s = Some dir \<and> currentTutorial s = Some t
               \<and> find (\<lambda>n. node_id n = stepId) (tut_steps t) = Some step
               \<and> fst (git_checkout h dir (node_gitRef step) (worldAtCheckout h dir (world s)))
                   = Some msg \<longrightarrow>
               currentTutorial s' = currentTutorial s)
         \<and> (currentTutorial s' \<noteq> currentTutorial s \<longrightarrow>
              (\<exists>dir t step.
                 git s = Some dir \<and> currentTutorial s = Some t
                 \<and> find (\<lambda>n. node_id n = stepId) (tut_steps t) = Some step
                 \<and> fst (git_checkout h dir (node_gitRef step) (worldAtCheckout h dir (world s)))
                     = None
                 \<and> Checkout (node_gitRef step) \<in> set (newCalls s s')
                 \<and> currentTutorial s' = Some (t\<lparr>tut_currentStepId := Some stepId\<rparr>)))"
proof (intro conjI allI impI)
  fix dir
  assume a: "git s = Some dir \<and> git_status_isClean h dir (world s) = Inr False
             \<and> showWarningMessage h (world s) \<noteq> Some choice_stash
             \<and> showWarningMessage h (world s) \<noteq> Some choice_discard"
  have c: "world s' = world s \<and> currentTutorial s' = currentTutorial s
           \<and> (calls s' = calls s \<or> calls s' = calls s @ [Status])"
    using navigateToStep_cancel [of s dir h stepId r s'] a assms by blast
  show "world s' = world s" and "currentTutorial s' = currentTutorial s"
    using c by simp_all
  fix ref
  show "Checkout ref \<notin> set (newCalls s s')"
    using c by (auto simp: newCalls_def)
next
  fix dir t step msg
  assume a: "git s = Some dir \<and> currentTutorial s = Some t
             \<and> find (\<lambda>n. node_id n = stepId) (tut_steps t) = Some step
             \<and> fst (git_checkout h dir (node_gitRef step) (worldAtCheckout h dir (world s)))
                 = Some msg"
  show "currentTutorial s' = currentTutorial s"
    using navigateToStep_run [of s t stepId step dir h r s'] a assms by auto
next
  assume d: "currentTutorial s' \<noteq> currentTutorial s"
  have "snd (navigateToStep h stepId s) \<noteq> s"
    using d assms by auto
  then have "\<not> (currentTutorial s = None
           \<or> (\<exists>t. currentTutorial s = Some t \<and> find (\<lambda>n. node_id n = stepId) (tut_steps t) = None)
           \<or> git s = None)"
    using navigateToStep_early [of s stepId h] by blast
  then obtain t step dir where t: "currentTutorial s = Some t"
    and f: "find (\<lambda>n. node_id n = stepId) (tut_steps t) = Some step"
    and g: "git s = Some dir"
    by (cases "currentTutorial s"; cases "git s"; auto)
  show "\<exists>dir t step.
          git s = Some dir \<and> currentTutorial s = Some t
          \<and> find (\<lambda>n. node_id n = stepId) (tut_steps t) = Some step
          \<and> fst (git_checkout h dir (node_gitRef step) (worldAtCheckout h dir (world s))) = None
          \<and> Checkout (node_gitRef step) \<in> set (newCalls s s')
          \<and> currentTutorial s' = Some (t\<lparr>tut_currentStepId := Some stepId\<rparr>)"
    using navigateToStep_run [OF t f g assms] d t f g by blast
qed

lemma tutorial0_steps:
  "tut_steps tutorial0 =
     [\<lparr>node_id = ''s1'', node_title = ''s1'', node_description = [], node_gitRef = ''v1'',
       node_parentId = None, node_children = [''s2''], node_explanationPath = ''doc.md''\<rparr>,
      \<lparr>node_id = ''s2'', node_title = ''s2'', node_description = [], node_gitRef = ''v2'',
       node_parentId = Some ''s1'', node_children = [''s3''], node_explanationPath = ''doc.md''\<rparr>,
      \<lparr>node_id = ''s3'', node_title = ''s3'', node_description = [], node_gitRef = ''gone'',
       node_parentId = Some ''s2'', node_children = [], node_explanationPath = ''doc.md''\<rparr>]"
  by (simp add: tutorial0_def buildStepTree_def step_cfg_def newNode_def linkChild_def)

theorem navigateToStep_atomic_witness:
  "world (snd (navigateToStep host0 ''s2'' sys_dirty)) = world sys_dirty
   \<and> currentTutorial (snd (navigateToStep host0 ''s2'' sys_dirty)) = currentTutorial sys_dirty
   \<and> Checkout ''v2'' \<notin> set (newCalls sys_dirty (snd (navigateToStep host0 ''s2'' sys_dirty)))
   \<and> currentTutorial (snd (navigateToStep host0 ''s3'' sys_clean)) = currentTutorial sys_clean
   \<and> currentTutorial (snd (navigateToStep host0 ''s2'' sys_clean)) \<noteq> currentTutorial sys_clean
   \<and> currentTutorial (snd (navigateToStep host0 ''s2'' sys_clean))
       = Some (tutorial0\<lparr>tut_currentStepId := Some ''s2''\<rparr>)"
proof -
  let ?cancel = "navigateToStep host0 ''s2'' sys_dirty"
  let ?fail = "navigateToStep host0 ''s3'' sys_clean"
  let ?ok = "navigateToStep host0 ''s2'' sys_clean"
  have dirty: "git sys_dirty = Some ''/good''
               \<and> git_status_isClean host0 ''/good'' (world sys_dirty) = Inr False
               \<and> showWarningMessage host0 (world sys_dirty) \<noteq> Some choice_stash
               \<and> showWarningMessage host0 (world sys_dirty) \<noteq> Some choice_discard"
    by (simp add: sys_dirty_def host0_def choice_cancel_def choice_stash_def choice_discard_def)
  have p1: "world (snd ?cancel) = world sys_dirty
            \<and> currentTutorial (snd ?cancel) = currentTutorial sys_dirty
            \<and> (\<forall>ref. Checkout ref \<notin> set (newCalls sys_dirty (snd ?cancel)))"
    using navigateToStep_atomic [where h = host0 and stepId = "''s2''" and s = sys_dirty,
            OF surjective_pairing,
            THEN conjunct1, rule_format, of "''/good''"] dirty
    by simp
  have s3: "find (\<lambda>n. node_id n = ''s3'') (tut_steps tutorial0)
              = Some \<lparr>node_id = ''s3'', node_title = ''s3'', node_description = [],
                      node_gitRef = ''gone'', node_parentId = Some ''s2'', node_children = [],
                      node_explanationPath = ''doc.md''\<rparr>"
    by (simp add: tutorial0_steps)
  have fails: "git sys_clean = Some ''/good'' \<and> currentTutorial sys_clean = Some tutorial0
        \<and> fst (git_checkout host0 ''/good'' ''gone'' (worldAtCheckout host0 ''/good'' (world sys_clean)))
            = Some ''pathspec did not match''"
    by (simp add: sys_clean_def host0_def worldAtCheckout_def)
  have p2: "currentTutorial (snd ?fail) = currentTutorial sys_clean"
    using navigateToStep_atomic [where h = host0 and stepId = "''s3''" and s = sys_clean,
            OF surjective_pairing,
            THEN conjunct2, THEN conjunct1, rule_format,
            of "''/good''" tutorial0 _ "''pathspec did not match''"] s3 fails
    by simp
  have ok: "currentTutorial (snd ?ok) = Some (tutorial0\<lparr>tut_currentStepId := Some ''s2''\<rparr>)"
    by (simp add: navigateToStep_def sys_clean_def tutorial0_steps hasUncommittedChanges_def
          getGit_def host0_def dirtyGate_def checkout_def)
  have cur: "tut_currentStepId tutorial0 = Some ''s1''"
    by (simp add: tutorial0_def)
  have "tutorial0\<lparr>tut_currentStepId := Some ''s2''\<rparr> \<noteq> tutorial0"
  proof
    assume "tutorial0\<lparr>tut_currentStepId := Some ''s2''\<rparr> = tutorial0"
    then have "tut_currentStepId (tutorial0\<lparr>tut_currentStepId := Some ''s2''\<rparr>)
                 = tut_currentStepId tutorial0"
      by (rule arg_cong)
    then show False
      by (simp add: cur)
  qed
  then have changed: "currentTutorial (snd ?ok) \<noteq> currentTutorial sys_clean"
    unfolding ok by (simp add: sys_clean_def)
  have p3: "\<exists>dir t step.
              git sys_clean = Some dir \<and> currentTutorial sys_clean = Some t
              \<and> find (\<lambda>n. node_id n = ''s2'') (tut_steps t) = Some step
              \<and> fst (git_checkout host0 dir (node_gitRef step)
                       (worldAtCheckout host0 dir (world sys_clean))) = None
              \<and> Checkout (node_gitRef step) \<in> set (newCalls sys_clean (snd ?ok))
              \<and> currentTutorial (snd ?ok) = Some (t\<lparr>tut_currentStepId := Some ''s2''\<rparr>)"
    using navigateToStep_atomic [where h = host0 and stepId = "''s2''" and s = sys_clean,
            OF surjective_pairing,
            THEN conjunct2, THEN conjunct2, rule_format] changed
    by simp
  then obtain t where "currentTutorial sys_clean = Some t"
    and "currentTutorial (snd ?ok) = Some (t\<lparr>tut_currentStepId := Some ''s2''\<rparr>)"
    by blast
  then have p3': "currentTutorial (snd ?ok) = Some (tutorial0\<lparr>tut_currentStepId := Some ''s2''\<rparr>)"
    by (simp add: sys_clean_def)
  have p1a: "world (snd ?cancel) = world sys_dirty"
    and p1b: "currentTutorial (snd ?cancel) = currentTutorial sys_dirty"
    and p1c: "Checkout ''v2'' \<notin> set (newCalls sys_dirty (snd ?cancel))"
    using p1 by blast+
  show ?thesis
    by (intro conjI) (rule p1a p1b p1c p2 changed p3')+
qed

subsection \<open>loadTutorial\<close>

lemma refExists_bound:
  "git s = Some dir \<Longrightarrow>
   refExists h ref s
     = (Inr (case git_revparse h dir [ref] (world s) of Inl msg \<Rightarrow> False | Inr out \<Rightarrow> True),
        s\<lparr>calls := calls s @ [RevParse [ref]]\<rparr>)"
  by (simp add: refExists_def getGit_def)

lemma collectInvalidRefs_bound:
  "git s = Some dir \<Longrightarrow>
   collectInvalidRefs h steps acc s
     = (Inr (acc @ map refLine
               (filter (\<lambda>step. case git_revparse h dir [cfg_gitRef step] (world s) of
                                  Inl msg \<Rightarrow> True
                                | Inr out \<Rightarrow> False) steps)),
        s\<lparr>calls := calls s @ map revParseOf steps\<rparr>)"
proof (induction steps arbitrary: acc s)
  case Nil
  then show ?case by simp
next
  case (Cons step steps)
  let ?s1 = "s\<lparr>calls := calls s @ [RevParse [cfg_gitRef step]]\<rparr>"
  have g1: "git ?s1 = Some dir"
    using Cons.prems by simp
  show ?case
    by (cases "git_revparse h dir [cfg_gitRef step] (world s)")
       (simp_all add: refExists_bound [OF Cons.prems] Cons.IH [OF g1] refLine_def revParseOf_def)
qed

lemma validateGitRefs_bound:
  assumes "git s = Some dir"
  shows "validateGitRefs h config s
     = ((if offending h dir (world s) config = [] then Inr ()
         else Inl (Error (msg_invalid_refs
                          @ join_newline (map refLine (offending h dir (world s) config))))),
        s\<lparr>calls := calls s @ map revParseOf (tc_steps config)\<rparr>)"
  by (simp add: validateGitRefs_def collectInvalidRefs_bound [OF assms] offending_def)

lemma initialize_frame:
  assumes "initialize h path s = (r, s1)"
  shows "currentTutorial s1 = currentTutorial s" and "fired s1 = fired s"
    and "world s1 = world s" and "r = Inr u \<Longrightarrow> git s1 = Some path"
  using assms
  by (auto simp: initialize_def Let_def split: option.splits)

lemma clone_frame:
  assumes "clone h url path s = (r, s1)"
  shows "currentTutorial s1 = currentTutorial s" and "fired s1 = fired s"
    and "r = Inr u \<Longrightarrow> git s1 = Some path"
proof -
  obtain r0 w where gc: "git_clone h url path (world s) = (r0, w)"
    by (cases "git_clone h url path (world s)")
  let ?s0 = "s\<lparr>world := w, calls := calls s @ [Clone url path]\<rparr>"
  show "currentTutorial s1 = currentTutorial s" and "fired s1 = fired s"
    and "r = Inr u \<Longrightarrow> git s1 = Some path"
    using assms gc initialize_frame [of h path ?s0 r s1]
    by (auto simp: clone_def Let_def split: option.splits)
qed

lemma bindSource_frame:
  assumes "bindSource h source s = (r, s1)"
  shows "currentTutorial s1 = currentTutorial s" and "fired s1 = fired s"
    and "r = Inr dir \<Longrightarrow> git s1 = Some dir"
proof -
  have "currentTutorial s1 = currentTutorial s \<and> fired s1 = fired s
        \<and> (r = Inr dir \<longrightarrow> git s1 = Some dir)"
  proof (cases "isRemoteUrl source")
    case True
    obtain r0 s0 where c: "clone h source (newTempDir h (world s)) s = (r0, s0)"
      by (cases "clone h source (newTempDir h (world s)) s")
    show ?thesis
      using assms True c clone_frame [OF c]
      by (cases r0) (auto simp: bindSource_def Let_def)
  next
    case False
    obtain r0 s0 where c: "initialize h source s = (r0, s0)"
      by (cases "initialize h source s")
    show ?thesis
      using assms False c initialize_frame [OF c]
      by (cases r0) (auto simp: bindSource_def)
  qed
  then show "currentTutorial s1 = currentTutorial s" and "fired s1 = fired s"
    and "r = Inr dir \<Longrightarrow> git s1 = Some dir"
    by simp_all
qed

lemma loadTutorial_failure:
  assumes "loadTutorial h source s = (Inl e, s')"
  shows "currentTutorial s' = currentTutorial s \<and> fired s' = fired s"
proof -
  obtain r1 s1 where b: "bindSource h source s = (r1, s1)"
    by (cases "bindSource h source s")
  note fr = bindSource_frame [OF b]
  show ?thesis
  proof (cases r1)
    case (Inl e1)
    then show ?thesis
      using assms b fr by (simp add: loadTutorial_def)
  next
    case (Inr dir)
    have g1: "git s1 = Some dir"
      using fr(3) Inr by simp
    show ?thesis
      using assms b Inr fr(1,2)
      by (auto simp: loadTutorial_def validateGitRefs_bound [OF g1] Let_def
               split: option.splits if_splits sum.splits)
  qed
qed

lemma loadTutorial_validation:
  assumes b: "bindSource h source s = (Inr dir, s1)"
    and c: "findConfigFile h dir (world s1) = Some configPath" "configPath \<noteq> []"
    and p: "parse h configPath (world s1) = Inr config"
    and l: "loadTutorial h source s = (r, s')"
  shows "newCalls s1 s' = map revParseOf (tc_steps config)"
    and "offending h dir (world s1) config \<noteq> [] \<Longrightarrow>
         r = Inl (Error (msg_invalid_refs
                         @ join_newline (map refLine (offending h dir (world s1) config))))"
    and "offending h dir (world s1) config = [] \<Longrightarrow>
         \<exists>tutorial. r = Inr tutorial \<and> tut_steps tutorial = buildStepTree (tc_steps config)
                    \<and> currentTutorial s' = Some tutorial"
proof -
  have g1: "git s1 = Some dir"
    using bindSource_frame(3) [OF b] by simp
  show "newCalls s1 s' = map revParseOf (tc_steps config)"
    using l by (auto simp: loadTutorial_def b c p validateGitRefs_bound [OF g1] Let_def
                      newCalls_def split: if_splits)
  show "offending h dir (world s1) config \<noteq> [] \<Longrightarrow>
         r = Inl (Error (msg_invalid_refs
                         @ join_newline (map refLine (offending h dir (world s1) config))))"
    using l by (auto simp: loadTutorial_def b c p validateGitRefs_bound [OF g1] Let_def)
  show "offending h dir (world s1) config = [] \<Longrightarrow>
         \<exists>tutorial. r = Inr tutorial \<and> tut_steps tutorial = buildStepTree (tc_steps config)
                    \<and> currentTutorial s' = Some tutorial"
    using l by (auto simp: loadTutorial_def b c p validateGitRefs_bound [OF g1] Let_def)
qed

text \<open>
  C3. For a run of \<open>loadTutorial\<close> from state \<open>s\<close> to state \<open>s'\<close>:
  \<^item> when it fails, the current tutorial is the one of before and no event was fired;
  \<^item> when the adapter was bound, a configuration file found and parsed, the git calls
    that follow are one \<^verbatim>\<open>revparse\<close> for the \<open>gitRef\<close> of every step, in order; if
    some refs do not resolve the run fails with the message that lists, after its
    heading, the line \<open>id: gitRef\<close> of every such step; and only if all resolve is the
    graph built and the tutorial made current.
\<close>

theorem loadTutorial_checks_every_ref:
  assumes "loadTutorial h source s = (r, s')"
  shows "(\<forall>e. r = Inl e \<longrightarrow> currentTutorial s' = currentTutorial s \<and> fired s' = fired s)
         \<and> (\<forall>dir s1 configPath config.
               bindSource h source s = (Inr dir, s1)
               \<and> findConfigFile h dir (world s1) = Some configPath \<and> configPath \<noteq> []
               \<and> parse h configPath (world s1) = Inr config \<longrightarrow>
               newCalls s1 s' = map revParseOf (tc_steps config)
               \<and> (offending h dir (world s1) config \<noteq> [] \<longrightarrow>
                    r = Inl (Error (msg_invalid_refs
                           @ join_newline (map refLine (offending h dir (world s1) config)))))
               \<and> (offending h dir (world s1) config = [] \<longrightarrow>
                    (\<exists>tutorial. r = Inr tutorial
                       \<and> tut_steps tutorial = buildStepTree (tc_steps config)
                       \<and> currentTutorial s' = Some tutorial)))"
  using assms loadTutorial_failure [of h source s _ s']
        loadTutorial_validation [of h source s _ _ _ _ r s']
  by blast

theorem loadTutorial_checks_every_ref_witness:
  "fst (loadTutorial host0 ''/broken'' sys_clean)
     = Inl (Error (msg_invalid_refs @ join_newline [''s1: x1'', ''s3: x3'']))
   \<and> currentTutorial (snd (loadTutorial host0 ''/broken'' sys_clean)) = currentTutorial sys_clean
   \<and> fired (snd (loadTutorial host0 ''/broken'' sys_clean)) = fired sys_clean
   \<and> newCalls sys_clean (snd (loadTutorial host0 ''/broken'' sys_clean))
       = [RevParse [''x1''], RevParse [''v2''], RevParse [''x3'']]"
proof -
  let ?run = "loadTutorial host0 ''/broken'' sys_clean"
  let ?s1 = "sys_clean\<lparr>repoPath := Some ''/broken'', git := Some ''/broken''\<rparr>"
  note inst = loadTutorial_checks_every_ref
               [where h = host0 and source = "''/broken''" and s = sys_clean,
                OF surjective_pairing]
  have b: "bindSource host0 ''/broken'' sys_clean = (Inr ''/broken'', ?s1)"
    by (simp add: bindSource_def isRemoteUrl_def startsWith_def initialize_def host0_def)
  have c: "findConfigFile host0 ''/broken'' (world ?s1) = Some ''/broken/tutorial.json''"
    by (simp add: findConfigFile_def host0_def)
  have p: "parse host0 ''/broken/tutorial.json'' (world ?s1) = Inr config_broken"
    by (simp add: host0_def)
  have off: "offending host0 ''/broken'' (world ?s1) config_broken
               = [step_cfg ''s1'' ''x1'' None, step_cfg ''s3'' ''x3'' None]"
    by (simp add: offending_def config_broken_def step_cfg_def host0_def)
  have lines: "map refLine [step_cfg ''s1'' ''x1'' None, step_cfg ''s3'' ''x3'' None]
                 = [''s1: x1'', ''s3: x3'']"
    by (simp add: refLine_def step_cfg_def)
  have steps: "map revParseOf (tc_steps config_broken)
                 = [RevParse [''x1''], RevParse [''v2''], RevParse [''x3'']]"
    by (simp add: revParseOf_def config_broken_def step_cfg_def)
  have hyp: "bindSource host0 ''/broken'' sys_clean = (Inr ''/broken'', ?s1)
             \<and> findConfigFile host0 ''/broken'' (world ?s1) = Some ''/broken/tutorial.json''
             \<and> ''/broken/tutorial.json'' \<noteq> []
             \<and> parse host0 ''/broken/tutorial.json'' (world ?s1) = Inr config_broken"
    using b c p by simp
  note v = inst [THEN conjunct2, rule_format, OF hyp]
  have calls1: "newCalls ?s1 (snd ?run) = map revParseOf (tc_steps config_broken)"
    using v by blast
  have r: "fst ?run = Inl (Error (msg_invalid_refs @ join_newline [''s1: x1'', ''s3: x3'']))"
    using v off lines by simp
  have fr: "currentTutorial (snd ?run) = currentTutorial sys_clean
            \<and> fired (snd ?run) = fired sys_clean"
    using inst [THEN conjunct1, rule_format, OF r] .
  have "newCalls sys_clean (snd ?run) = newCalls ?s1 (snd ?run)"
    by (simp add: newCalls_def)
  then have calls0: "newCalls sys_clean (snd ?run)
                       = [RevParse [''x1''], RevParse [''v2''], RevParse [''x3'']]"
    using calls1 steps by simp
  show ?thesis
    using r fr calls0 by blast
qed

section \<open>Properties of the diff synthesizer\<close>

subsection \<open>Status of a file\<close>

lemma fileDiffOf_fields:
  "fd_filePath (fileDiffOf fromRef m entry) = dsf_file entry"
  "fd_hunks (fileDiffOf fromRef m entry) = (case m (dsf_file entry) of Some hs \<Rightarrow> hs | None \<Rightarrow> [])"
  "fd_additions (fileDiffOf fromRef m entry)
     = (case entry of TextFile f ins del \<Rightarrow> ins | BinaryFile f \<Rightarrow> 0)"
  "fd_deletions (fileDiffOf fromRef m entry)
     = (case entry of TextFile f ins del \<Rightarrow> del | BinaryFile f \<Rightarrow> 0)"
  by (simp_all add: fileDiffOf_def Let_def)

lemma fileDiffOf_status:
  "fd_status (fileDiffOf fromRef m entry)
     = (if startsFromNothing (fd_hunks (fileDiffOf fromRef m entry)) then added
        else if includes_str (fd_filePath (fileDiffOf fromRef m entry)) '' => '' then renamed
        else if fromRef = [] \<and> 0 < fd_additions (fileDiffOf fromRef m entry)
                \<and> fd_deletions (fileDiffOf fromRef m entry) = 0 then added
        else if 0 < fd_deletions (fileDiffOf fromRef m entry)
                \<and> fd_additions (fileDiffOf fromRef m entry) = 0 then deleted
        else modified)"
  unfolding fileDiffOf_fields
  by (cases entry)
     (auto simp: fileDiffOf_def Let_def startsFromNothing_def split: option.splits list.splits)

lemma getDiff_result:
  assumes "getDiff h fromRef toRef s = (Inr diffs, s')"
  shows "\<exists>m files. diffs = map (fileDiffOf fromRef m) files"
  using assms
  by (auto simp: getDiff_def Let_def split: sum.splits)

text \<open>
  C1, as the code has it. Every \<open>FileDiff\<close> that \<open>getDiff\<close> returns has its status
  by these rules, the first that applies: the hunks parsed under exactly its path begin
  with a hunk whose \<open>oldLines\<close> is 0, in any comparison and whatever the path: \<open>added\<close>;
  the path contains \<open>" => "\<close>: \<open>renamed\<close>; the comparison is the one against the empty
  tree (\<open>fromRef\<close> empty) and there are insertions and no deletions: \<open>added\<close>; there
  are deletions and no insertions: \<open>deleted\<close>; otherwise \<open>modified\<close>.
\<close>

theorem getDiff_status_priority:
  assumes "getDiff h fromRef toRef s = (Inr diffs, s')"
    and "d \<in> set diffs"
  shows "fd_status d
     = (if startsFromNothing (fd_hunks d) then added
        else if includes_str (fd_filePath d) '' => '' then renamed
        else if fromRef = [] \<and> 0 < fd_additions d \<and> fd_deletions d = 0 then added
        else if 0 < fd_deletions d \<and> fd_additions d = 0 then deleted
        else modified)"
proof -
  obtain m files where "diffs = map (fileDiffOf fromRef m) files"
    using getDiff_result [OF assms(1)] by blast
  then obtain entry where "d = fileDiffOf fromRef m entry"
    using assms(2) by auto
  then show ?thesis
    by (simp only: fileDiffOf_status [of fromRef m entry])
qed

lemma split_diff_text:
  "split_newline diff_text =
     [''diff --git a/a.txt b/a.txt'', ''--- a/a.txt'', ''+++ b/a.txt'', ''@@ -1,3 +1,5 @@'',
      '' one'', ''+two'', ''+three'', '' four'', '' five'',
      ''diff --git a/a => b b/a => b'', ''--- /dev/null'', ''+++ b/a => b'',
      ''@@ -0,0 +1 @@'', ''+new'', '''']"
  by (simp add: diff_text_def newline_def)

lemma sample_matches:
  "fileMatch ''diff --git a/a.txt b/a.txt'' = Some ''a.txt''"
  "fileMatch ''diff --git a/a => b b/a => b'' = Some ''a => b''"
  "fileMatch ''--- a/a.txt'' = None" "fileMatch ''+++ b/a.txt'' = None"
  "fileMatch ''@@ -1,3 +1,5 @@'' = None" "fileMatch '' one'' = None"
  "fileMatch ''+two'' = None" "fileMatch ''+three'' = None" "fileMatch '' four'' = None"
  "fileMatch '' five'' = None" "fileMatch ''--- /dev/null'' = None"
  "fileMatch ''+++ b/a => b'' = None" "fileMatch ''@@ -0,0 +1 @@'' = None"
  "fileMatch ''+new'' = None" "fileMatch [] = None"
  "hunkMatch ''@@ -1,3 +1,5 @@'' = Some (''1'', ''3'', ''1'', ''5'')"
  "hunkMatch ''@@ -0,0 +1 @@'' = Some (''0'', ''0'', ''1'', [])"
  "hunkMatch ''--- a/a.txt'' = None" "hunkMatch ''+++ b/a.txt'' = None"
  "hunkMatch '' one'' = None" "hunkMatch ''+two'' = None" "hunkMatch ''+three'' = None"
  "hunkMatch '' four'' = None" "hunkMatch '' five'' = None"
  "hunkMatch ''--- /dev/null'' = None" "hunkMatch ''+++ b/a => b'' = None"
  "hunkMatch ''+new'' = None" "hunkMatch [] = None"
  by (simp_all add: fileMatch_def hunkMatch_def dropPrefix_def startsWith_def dotPlus_def
        skipComma_def isDigit_def Let_def)

lemma parse_diff_text:
  "parseDiffOutput diff_text =
     [''a.txt'' \<mapsto> [\<lparr>oldStart = 1, oldLines = 3, newStart = 1, newLines = 5,
                       content = join_newline [''@@ -1,3 +1,5 @@'', '' one'', ''+two'',
                                               ''+three'', '' four'', '' five'']\<rparr>],
      ''a => b'' \<mapsto> [\<lparr>oldStart = 0, oldLines = 0, newStart = 1, newLines = 1,
                        content = join_newline [''@@ -0,0 +1 @@'', ''+new'']\<rparr>]]"
  unfolding parseDiffOutput_def split_diff_text
  by (simp add: parseLine_def sample_matches saveLast_def saveHunk_def collectLine_def
        isHunkLine_def startsWith_def newHunk_def parseInt_def)

text \<open>
  The claim C1 as it is worded fails twice on one diff between two commits (\<open>fromRef\<close>
  is \<open>v1\<close>). \<open>a.txt\<close> has two insertions, no deletion and a first hunk with three old
  lines: the claim gives \<open>added\<close>, the code \<open>modified\<close>. The file named \<open>a => b\<close> is new,
  so its first hunk has no old lines: the claim gives \<open>renamed\<close>, the code \<open>added\<close>.
\<close>

theorem getDiff_status_counterexample:
  "fst (getDiff host0 ''v1'' ''v2'' sys_clean) =
     Inr [\<lparr>fd_filePath = ''a.txt'', fd_status = modified, fd_additions = 2, fd_deletions = 0,
           fd_hunks = [\<lparr>oldStart = 1, oldLines = 3, newStart = 1, newLines = 5,
                        content = join_newline [''@@ -1,3 +1,5 @@'', '' one'', ''+two'',
                                                ''+three'', '' four'', '' five'']\<rparr>]\<rparr>,
          \<lparr>fd_filePath = ''a => b'', fd_status = added, fd_additions = 1, fd_deletions = 0,
           fd_hunks = [\<lparr>oldStart = 0, oldLines = 0, newStart = 1, newLines = 1,
                        content = join_newline [''@@ -0,0 +1 @@'', ''+new'']\<rparr>]\<rparr>]
   \<and> includes_str ''a => b'' '' => ''
   \<and> \<not> includes_str ''a.txt'' '' => ''"
  by (simp add: getDiff_def getGit_def sys_clean_def host0_def parse_diff_text fileDiffOf_def
        startsWith_def Let_def)

theorem getDiff_status_priority_witness:
  "fst (getDiff host0 ''v1'' ''v2'' sys_clean) =
     Inr [\<lparr>fd_filePath = ''a.txt'', fd_status = modified, fd_additions = 2, fd_deletions = 0,
           fd_hunks = [\<lparr>oldStart = 1, oldLines = 3, newStart = 1, newLines = 5,
                        content = join_newline [''@@ -1,3 +1,5 @@'', '' one'', ''+two'',
                                                ''+three'', '' four'', '' five'']\<rparr>]\<rparr>,
          \<lparr>fd_filePath = ''a => b'', fd_status = added, fd_additions = 1, fd_deletions = 0,
           fd_hunks = [\<lparr>oldStart = 0, oldLines = 0, newStart = 1, newLines = 1,
                        content = join_newline [''@@ -0,0 +1 @@'', ''+new'']\<rparr>]\<rparr>]
   \<and> \<not> startsFromNothing [\<lparr>oldStart = 1, oldLines = 3, newStart = 1, newLines = 5,
                        content = join_newline [''@@ -1,3 +1,5 @@'', '' one'', ''+two'',
                                                ''+three'', '' four'', '' five'']\<rparr>]
   \<and> startsFromNothing [\<lparr>oldStart = 0, oldLines = 0, newStart = 1, newLines = 1,
                        content = join_newline [''@@ -0,0 +1 @@'', ''+new'']\<rparr>]"
proof -
  let ?a = "\<lparr>fd_filePath = ''a.txt'', fd_status = modified, fd_additions = 2, fd_deletions = 0,
           fd_hunks = [\<lparr>oldStart = 1, oldLines = 3, newStart = 1, newLines = 5,
                        content = join_newline [''@@ -1,3 +1,5 @@'', '' one'', ''+two'',
                                                ''+three'', '' four'', '' five'']\<rparr>]\<rparr>"
  let ?b = "\<lparr>fd_filePath = ''a => b'', fd_status = added, fd_additions = 1, fd_deletions = 0,
           fd_hunks = [\<lparr>oldStart = 0, oldLines = 0, newStart = 1, newLines = 1,
                        content = join_newline [''@@ -0,0 +1 @@'', ''+new'']\<rparr>]\<rparr>"
  have run: "getDiff host0 ''v1'' ''v2'' sys_clean
               = (Inr [?a, ?b], snd (getDiff host0 ''v1'' ''v2'' sys_clean))"
    by (simp add: getDiff_def getGit_def sys_clean_def host0_def parse_diff_text fileDiffOf_def
          startsWith_def Let_def)
  have ina: "?a \<in> set [?a, ?b]" and inb: "?b \<in> set [?a, ?b]"
    by simp_all
  have sa: "fd_status ?a = modified"
    using getDiff_status_priority [OF run ina]
    by (simp add: startsFromNothing_def startsWith_def)
  have sb: "fd_status ?b = added"
    using getDiff_status_priority [OF run inb]
    by (simp add: startsFromNothing_def)
  have fs: "fst (getDiff host0 ''v1'' ''v2'' sys_clean) = Inr [?a, ?b]"
    using run by (metis fst_conv)
  show ?thesis
    using sa sb fs by (simp add: startsFromNothing_def)
qed

subsection \<open>Content of a hunk\<close>

lemma closedHunk_more:
  assumes "closedHunk False seen hk"
  shows "closedHunk False (seen @ [l]) hk"
proof -
  obtain pre h groups body rest where d: "seen = pre @ h # body @ rest"
    "hunkMatch h = Some groups" "list_all notHeader body"
    "case rest of [] \<Rightarrow> False | l # ls \<Rightarrow> isHeader l"
    "hk = (newHunk groups)\<lparr>content := join_newline (h # filter isHunkLine body)\<rparr>"
    using assms unfolding closedHunk_def by blast
  have "seen @ [l] = pre @ h # body @ (rest @ [l])"
    using d(1) by simp
  moreover have "case rest @ [l] of [] \<Rightarrow> False | l # ls \<Rightarrow> isHeader l"
    using d(4) by (cases rest) simp_all
  ultimately show ?thesis
    unfolding closedHunk_def using d(2,3,5) by blast
qed

lemma closedHunk_atEnd:
  assumes "closedHunk False seen hk"
  shows "closedHunk True seen hk"
proof -
  obtain pre h groups body rest where d: "seen = pre @ h # body @ rest"
    "hunkMatch h = Some groups" "list_all notHeader body"
    "case rest of [] \<Rightarrow> False | l # ls \<Rightarrow> isHeader l"
    "hk = (newHunk groups)\<lparr>content := join_newline (h # filter isHunkLine body)\<rparr>"
    using assms unfolding closedHunk_def by blast
  have "case rest of [] \<Rightarrow> True | l # ls \<Rightarrow> isHeader l"
    using d(4) by (cases rest) simp_all
  then show ?thesis
    unfolding closedHunk_def using d(1,2,3,5) by blast
qed

lemma openHunk_closed_by_header:
  assumes "openHunk seen hk hc" and "isHeader l"
  shows "closedHunk False (seen @ [l]) (hk\<lparr>content := join_newline hc\<rparr>)"
proof -
  obtain pre h groups body where d: "seen = pre @ h # body"
    "hunkMatch h = Some groups" "list_all notHeader body"
    "hk = newHunk groups" "hc = h # filter isHunkLine body"
    using assms(1) unfolding openHunk_def by blast
  have "seen @ [l] = pre @ h # body @ [l]"
    using d(1) by simp
  moreover have "case [l] of [] \<Rightarrow> False | l # ls \<Rightarrow> isHeader l"
    using assms(2) by simp
  ultimately show ?thesis
    unfolding closedHunk_def using d(2,3,4,5) by blast
qed

lemma openHunk_closed_by_end:
  assumes "openHunk seen hk hc"
  shows "closedHunk True seen (hk\<lparr>content := join_newline hc\<rparr>)"
proof -
  obtain pre h groups body where d: "seen = pre @ h # body"
    "hunkMatch h = Some groups" "list_all notHeader body"
    "hk = newHunk groups" "hc = h # filter isHunkLine body"
    using assms(1) unfolding openHunk_def by blast
  have "seen = pre @ h # body @ []"
    using d(1) by simp
  moreover have "case [] :: string list of [] \<Rightarrow> True | l # ls \<Rightarrow> isHeader l"
    by simp
  ultimately show ?thesis
    unfolding closedHunk_def using d(2,3,4,5) by blast
qed

lemma openHunk_extended:
  assumes "openHunk seen hk hc" and "\<not> isHeader l"
  shows "openHunk (seen @ [l]) hk (if isHunkLine l then hc @ [l] else hc)"
proof -
  obtain pre h groups body where d: "seen = pre @ h # body"
    "hunkMatch h = Some groups" "list_all notHeader body"
    "hk = newHunk groups" "hc = h # filter isHunkLine body"
    using assms(1) unfolding openHunk_def by blast
  have "seen @ [l] = pre @ h # (body @ [l])"
    using d(1) by simp
  moreover have "list_all notHeader (body @ [l])"
    using d(3) assms(2) by (simp add: notHeader_def)
  moreover have "(if isHunkLine l then hc @ [l] else hc) = h # filter isHunkLine (body @ [l])"
    using d(5) by simp
  ultimately show ?thesis
    unfolding openHunk_def using d(2,4) by blast
qed

lemma openHunk_started:
  assumes "hunkMatch l = Some groups"
  shows "openHunk (seen @ [l]) (newHunk groups) [l]"
proof -
  have "seen @ [l] = seen @ l # []" and "list_all notHeader []"
    and "[l] = l # filter isHunkLine []"
    by simp_all
  then show ?thesis
    unfolding openHunk_def using assms by blast
qed

lemma saveHunk_member:
  assumes "saveHunk f hk hc m f' = Some hs" and "hk' \<in> set hs"
  shows "hk' = hk\<lparr>content := join_newline hc\<rparr> \<or> (\<exists>hs0. m f' = Some hs0 \<and> hk' \<in> set hs0)"
  using assms
  by (auto simp: saveHunk_def split: if_splits option.splits)

lemma saveLast_closed:
  assumes inv: "parseInv seen st"
    and hdr: "isHeader l"
    and mem: "saveLast st f = Some hs" "hk \<in> set hs"
  shows "closedHunk False (seen @ [l]) hk"
proof -
  have old: "closedHunk False (seen @ [l]) hk" if "hunksMap st f = Some hs0" "hk \<in> set hs0" for hs0
    using inv that closedHunk_more unfolding parseInv_def by blast
  show ?thesis
  proof (cases "currentHunk st")
    case None
    then have "saveLast st = hunksMap st"
      by (simp add: saveLast_def split: option.splits)
    then show ?thesis
      using old mem by simp
  next
    case (Some cur)
    then obtain path where cf: "currentFile st = Some path" "path \<noteq> []"
      and op: "openHunk seen cur (hunkContent st)"
      using inv unfolding parseInv_def by blast
    have "saveLast st = saveHunk path cur (hunkContent st) (hunksMap st)"
      using Some cf by (simp add: saveLast_def)
    then have "hk = cur\<lparr>content := join_newline (hunkContent st)\<rparr>
               \<or> (\<exists>hs0. hunksMap st f = Some hs0 \<and> hk \<in> set hs0)"
      using mem saveHunk_member by simp
    then show ?thesis
      using old openHunk_closed_by_header [OF op hdr] by blast
  qed
qed

lemma parseInv_collect:
  assumes inv: "parseInv seen st" and nh: "\<not> isHeader l"
  shows "parseInv (seen @ [l]) (collectLine st l)"
proof -
  have maps: "hunksMap (collectLine st l) = hunksMap st"
    and files: "currentFile (collectLine st l) = currentFile st"
    and hunks: "currentHunk (collectLine st l) = currentHunk st"
    by (simp_all add: collectLine_def)
  have closed: "closedHunk False (seen @ [l]) hk"
    if "hunksMap st f = Some hs" "hk \<in> set hs" for f hs hk
    using inv that closedHunk_more unfolding parseInv_def by blast
  have "openHunk (seen @ [l]) hk (hunkContent (collectLine st l))"
    if cur: "currentHunk st = Some hk" for hk
  proof -
    have "openHunk seen hk (hunkContent st)"
      using inv cur unfolding parseInv_def by blast
    then have "openHunk (seen @ [l]) hk (if isHunkLine l then hunkContent st @ [l] else hunkContent st)"
      using nh by (rule openHunk_extended)
    moreover have "hunkContent (collectLine st l)
                     = (if isHunkLine l then hunkContent st @ [l] else hunkContent st)"
      using cur by (simp add: collectLine_def)
    ultimately show ?thesis
      by simp
  qed
  then show ?thesis
    using inv closed unfolding parseInv_def maps files hunks by blast
qed

lemma parseInv_idle:
  assumes inv: "parseInv seen st" and idle: "currentHunk st = None"
  shows "parseInv (seen @ [l]) (collectLine st l)"
proof -
  have same: "collectLine st l = st"
    using idle by (simp add: collectLine_def)
  have "closedHunk False (seen @ [l]) hk"
    if "hunksMap st f = Some hs" "hk \<in> set hs" for f hs hk
    using inv that closedHunk_more unfolding parseInv_def by blast
  then show ?thesis
    unfolding parseInv_def same using idle by auto
qed

lemma parseInv_step:
  assumes inv: "parseInv seen st"
  shows "parseInv (seen @ [l]) (parseLine st l)"
proof (cases "fileMatch l")
  case (Some file2)
  then have hdr: "isHeader l"
    by (simp add: isHeader_def)
  have st': "parseLine st l
               = \<lparr>hunksMap = saveLast st, currentFile = Some file2, currentHunk = None,
                  hunkContent = []\<rparr>"
    using Some by (simp add: parseLine_def)
  show ?thesis
    unfolding st' parseInv_def using saveLast_closed [OF inv hdr] by auto
next
  case None
  show ?thesis
  proof (cases "hunkMatch l")
    case no: None
    then have "\<not> isHeader l"
      using None by (simp add: isHeader_def)
    then show ?thesis
      using parseInv_collect [OF inv] None no by (simp add: parseLine_def)
  next
    case (Some groups)
    then have hdr: "isHeader l"
      by (simp add: isHeader_def)
    show ?thesis
    proof (cases "\<exists>path. currentFile st = Some path \<and> path \<noteq> []")
      case False
      then have idle: "currentHunk st = None"
        using inv unfolding parseInv_def by (cases "currentHunk st") auto
      have "parseLine st l = collectLine st l"
        using None Some False by (auto simp: parseLine_def split: option.splits)
      then show ?thesis
        using parseInv_idle [OF inv idle] by simp
    next
      case True
      then obtain path where cf: "currentFile st = Some path" "path \<noteq> []"
        by blast
      have same: "saveLast st
                   = (case currentHunk st of
                        Some hunk \<Rightarrow> saveHunk path hunk (hunkContent st) (hunksMap st)
                      | None \<Rightarrow> hunksMap st)"
        using cf by (simp add: saveLast_def split: option.splits)
      have st': "parseLine st l
                   = \<lparr>hunksMap = saveLast st, currentFile = Some path,
                      currentHunk = Some (newHunk groups), hunkContent = [l]\<rparr>"
        using None Some cf same by (simp add: parseLine_def)
      show ?thesis
        unfolding st' parseInv_def
        using saveLast_closed [OF inv hdr] openHunk_started [OF Some, of seen] cf(2)
        by auto
    qed
  qed
qed

lemma parseInv_fold:
  "parseInv seen st \<Longrightarrow> parseInv (seen @ ls) (foldl parseLine st ls)"
proof (induction ls arbitrary: seen st)
  case Nil
  then show ?case by simp
next
  case (Cons l ls)
  have "parseInv ((seen @ [l]) @ ls) (foldl parseLine (parseLine st l) ls)"
    by (rule Cons.IH) (rule parseInv_step [OF Cons.prems])
  then show ?case
    by simp
qed

lemma parseInv_start:
  "parseInv [] \<lparr>hunksMap = Map.empty, currentFile = None, currentHunk = None, hunkContent = []\<rparr>"
  by (simp add: parseInv_def)

lemma saveLast_final:
  assumes inv: "parseInv seen st"
    and mem: "saveLast st f = Some hs" "hk \<in> set hs"
  shows "closedHunk True seen hk"
proof -
  have old: "closedHunk True seen hk" if "hunksMap st f = Some hs0" "hk \<in> set hs0" for hs0
    using inv that closedHunk_atEnd unfolding parseInv_def by blast
  show ?thesis
  proof (cases "currentHunk st")
    case None
    then have "saveLast st = hunksMap st"
      by (simp add: saveLast_def split: option.splits)
    then show ?thesis
      using old mem by simp
  next
    case (Some cur)
    then obtain path where cf: "currentFile st = Some path" "path \<noteq> []"
      and op: "openHunk seen cur (hunkContent st)"
      using inv unfolding parseInv_def by blast
    have "saveLast st = saveHunk path cur (hunkContent st) (hunksMap st)"
      using Some cf by (simp add: saveLast_def)
    then have "hk = cur\<lparr>content := join_newline (hunkContent st)\<rparr>
               \<or> (\<exists>hs0. hunksMap st f = Some hs0 \<and> hk \<in> set hs0)"
      using mem saveHunk_member by simp
    then show ?thesis
      using old openHunk_closed_by_end [OF op] by blast
  qed
qed

lemma closedHunk_hunkStarting:
  assumes "closedHunk True ls hk"
  shows "\<exists>i < length ls. hunkStarting (drop i ls) = Some hk"
proof -
  obtain pre h groups body rest where d: "ls = pre @ h # body @ rest"
    "hunkMatch h = Some groups" "list_all notHeader body"
    "case rest of [] \<Rightarrow> True | l # ls \<Rightarrow> isHeader l"
    "hk = (newHunk groups)\<lparr>content := join_newline (h # filter isHunkLine body)\<rparr>"
    using assms unfolding closedHunk_def by blast
  have "takeWhile notHeader rest = []"
    using d(4) by (cases rest) (simp_all add: notHeader_def)
  then have "takeWhile notHeader (body @ rest) = body"
    using d(3) by (simp add: takeWhile_append2 list_all_iff)
  then have "hunkStarting (drop (length pre) ls) = Some hk"
    using d(1,2,5) by simp
  moreover have "length pre < length ls"
    using d(1) by simp
  ultimately show ?thesis
    by blast
qed

text \<open>
  C5, as the code has it. Every hunk that \<open>parseDiffOutput\<close> returns begins at a line of
  the diff text that is a hunk header; its numbers are those of the header, and its
  content is that header line followed, in their order, by the lines beginning with
  \<open>+\<close>, \<open>-\<close> or a space among the lines between the header and the next file or hunk
  header (or the end of the text), joined by newlines, and nothing else.
\<close>

theorem parseDiffOutput_content:
  assumes "parseDiffOutput diffOutput f = Some hunks" and "hk \<in> set hunks"
  shows "\<exists>i < length (split_newline diffOutput).
           hunkStarting (drop i (split_newline diffOutput)) = Some hk"
proof -
  have "parseInv ([] @ split_newline diffOutput)
          (foldl parseLine
             \<lparr>hunksMap = Map.empty, currentFile = None, currentHunk = None, hunkContent = []\<rparr>
             (split_newline diffOutput))"
    by (rule parseInv_fold) (rule parseInv_start)
  then have "closedHunk True (split_newline diffOutput) hk"
    using assms saveLast_final unfolding parseDiffOutput_def by simp
  then show ?thesis
    by (rule closedHunk_hunkStarting)
qed

theorem parseDiffOutput_content_witness:
  "parseDiffOutput diff_text ''a => b''
     = Some [\<lparr>oldStart = 0, oldLines = 0, newStart = 1, newLines = 1,
               content = join_newline [''@@ -0,0 +1 @@'', ''+new'']\<rparr>]
   \<and> (\<exists>i < length (split_newline diff_text).
         hunkStarting (drop i (split_newline diff_text))
           = Some \<lparr>oldStart = 0, oldLines = 0, newStart = 1, newLines = 1,
                   content = join_newline [''@@ -0,0 +1 @@'', ''+new'']\<rparr>)
   \<and> hunkStarting (drop 12 (split_newline diff_text))
       = Some \<lparr>oldStart = 0, oldLines = 0, newStart = 1, newLines = 1,
               content = join_newline [''@@ -0,0 +1 @@'', ''+new'']\<rparr>"
proof -
  let ?hk = "\<lparr>oldStart = 0, oldLines = 0, newStart = 1, newLines = 1,
              content = join_newline [''@@ -0,0 +1 @@'', ''+new'']\<rparr>"
  have a: "parseDiffOutput diff_text ''a => b'' = Some [?hk]"
    by (simp add: parse_diff_text)
  have b: "?hk \<in> set [?hk]"
    by simp
  have c: "\<exists>i < length (split_newline diff_text).
             hunkStarting (drop i (split_newline diff_text)) = Some ?hk"
    by (rule parseDiffOutput_content [OF a b])
  have d: "hunkStarting (drop 12 (split_newline diff_text)) = Some ?hk"
    unfolding split_diff_text
    by (simp add: sample_matches newHunk_def parseInt_def isHunkLine_def startsWith_def
          notHeader_def isHeader_def)
  show ?thesis
    by (intro conjI) (rule a c d)+
qed

text \<open>
  The claim C5 as it is worded fails: the content of the hunk parsed for the file
  \<open>a => b\<close> begins with the line of the hunk header, which is none of the added,
  removed or context lines, so it is not the text of those lines alone.
\<close>

theorem parseDiffOutput_content_counterexample:
  "parseDiffOutput diff_text ''a => b''
     = Some [\<lparr>oldStart = 0, oldLines = 0, newStart = 1, newLines = 1,
               content = join_newline [''@@ -0,0 +1 @@'', ''+new'']\<rparr>]
   \<and> \<not> isHunkLine ''@@ -0,0 +1 @@''
   \<and> join_newline [''@@ -0,0 +1 @@'', ''+new''] \<noteq> join_newline [''+new'']"
  by (simp add: parse_diff_text isHunkLine_def startsWith_def)

section \<open>Properties of the step graph builder\<close>

subsection \<open>The map operations\<close>

lemma map_set_keys:
  "map fst (map_set k v m) = (if k \<in> set (map fst m) then map fst m else map fst m @ [k])"
  by (induction m) (auto simp: rev_image_eqI)

lemma map_of_map_set:
  "map_of (map_set k v m) k' = (if k' = k then Some v else map_of m k')"
  by (induction m) auto

lemma map_set_fresh:
  "k \<notin> set (map fst m) \<Longrightarrow> map_set k v m = m @ [(k, v)]"
  by (induction m) auto

lemma map_set_keyed:
  "distinct (map key cs) \<Longrightarrow>
   map_set k v (map (\<lambda>c. (key c, g c)) cs)
     = (if k \<in> key ` set cs then map (\<lambda>c. (key c, if key c = k then v else g c)) cs
        else map (\<lambda>c. (key c, g c)) cs @ [(k, v)])"
  by (induction cs) (auto simp: image_iff)

lemma map_of_keyed:
  "map_of (map (\<lambda>c. (key c, g c)) cs) k = map_option g (find (\<lambda>c. key c = k) cs)"
  by (induction cs) auto

subsection \<open>First pass\<close>

lemma first_pass_distinct:
  "distinct (map fst m @ map cfg_id cs) \<Longrightarrow>
   foldl (\<lambda>m config. map_set (cfg_id config) (newNode config) m) m cs
     = m @ map (\<lambda>c. (cfg_id c, newNode c)) cs"
proof (induction cs arbitrary: m)
  case Nil
  then show ?case by simp
next
  case (Cons c cs)
  have fresh: "cfg_id c \<notin> set (map fst m)"
    using Cons.prems by auto
  have "distinct (map fst (m @ [(cfg_id c, newNode c)]) @ map cfg_id cs)"
    using Cons.prems by auto
  then show ?case
    using Cons.IH [of "m @ [(cfg_id c, newNode c)]"]
    by (simp add: map_set_fresh [OF fresh])
qed

subsection \<open>Second pass on distinct ids\<close>

text \<open>What one round of the second loop does to the node made for configuration \<open>c\<close>.\<close>

lemma linkChild_keyed:
  assumes "distinct (map cfg_id cs)"
  shows "linkChild (map (\<lambda>c. (cfg_id c, g c)) cs) n
     = map (\<lambda>c. (cfg_id c,
                 if node_parentId n = Some (cfg_id c) \<and> cfg_id c \<noteq> []
                 then (g c)\<lparr>node_children := node_children (g c) @ [node_id n]\<rparr>
                 else g c)) cs"
proof (cases "node_parentId n")
  case None
  then show ?thesis
    by (simp add: linkChild_def)
next
  case (Some pid)
  show ?thesis
  proof (cases "pid = []")
    case True
    then show ?thesis
      using Some by (auto simp: linkChild_def)
  next
    case False
    show ?thesis
    proof (cases "find (\<lambda>c. cfg_id c = pid) cs")
      case None
      then have "\<forall>c \<in> set cs. cfg_id c \<noteq> pid"
        by (auto simp: find_None_iff)
      then show ?thesis
        using Some False None by (auto simp: linkChild_def map_of_keyed)
    next
      case found: (Some c0)
      then have c0: "c0 \<in> set cs" "cfg_id c0 = pid"
        by (auto simp: find_Some_iff)
      have uniq: "\<forall>c \<in> set cs. cfg_id c = pid \<longrightarrow> c = c0"
        using assms c0 by (auto simp: distinct_map inj_on_def)
      have "linkChild (map (\<lambda>c. (cfg_id c, g c)) cs) n
              = map_set pid ((g c0)\<lparr>node_children := node_children (g c0) @ [node_id n]\<rparr>)
                  (map (\<lambda>c. (cfg_id c, g c)) cs)"
        using Some False found by (simp add: linkChild_def map_of_keyed)
      also have "\<dots> = map (\<lambda>c. (cfg_id c,
                     if cfg_id c = pid
                     then (g c0)\<lparr>node_children := node_children (g c0) @ [node_id n]\<rparr>
                     else g c)) cs"
        using c0 by (auto simp: map_set_keyed [OF assms])
      also have "\<dots> = map (\<lambda>c. (cfg_id c,
                     if node_parentId n = Some (cfg_id c) \<and> cfg_id c \<noteq> []
                     then (g c)\<lparr>node_children := node_children (g c) @ [node_id n]\<rparr>
                     else g c)) cs"
        using uniq Some False by (intro map_cong) auto
      finally show ?thesis .
    qed
  qed
qed

lemma second_pass_keyed:
  assumes "distinct (map cfg_id cs)"
  shows "foldl linkChild (map (\<lambda>c. (cfg_id c, g c)) cs) ns
     = map (\<lambda>c. (cfg_id c,
                 (g c)\<lparr>node_children := node_children (g c)
                    @ map node_id (filter (\<lambda>n. node_parentId n = Some (cfg_id c)
                                               \<and> cfg_id c \<noteq> []) ns)\<rparr>)) cs"
proof (induction ns arbitrary: g)
  case Nil
  then show ?case by simp
next
  case (Cons n ns)
  show ?case
    unfolding foldl_Cons linkChild_keyed [OF assms] Cons.IH
    by (intro map_cong) auto
qed

lemma parent_of_newNode:
  "pid \<noteq> [] \<Longrightarrow> (node_parentId (newNode c) = Some pid) = (cfg_parentId c = Some pid)"
  by (auto simp: newNode_def split: option.splits)

lemma buildStepTree_distinct:
  assumes "distinct (map cfg_id cs)" and "[] \<notin> set (map cfg_id cs)"
  shows "buildStepTree cs
           = map (\<lambda>c. (newNode c)\<lparr>node_children := childrenOf cs (cfg_id c)\<rparr>) cs"
proof -
  have pass1: "foldl (\<lambda>m config. map_set (cfg_id config) (newNode config) m) [] cs
                 = map (\<lambda>c. (cfg_id c, newNode c)) cs"
    using first_pass_distinct [of "[]" cs] assms(1) by simp
  have vals: "map snd (map (\<lambda>c. (cfg_id c, newNode c)) cs) = map newNode cs"
    by simp
  have kids: "map node_id (filter (\<lambda>n. node_parentId n = Some (cfg_id c) \<and> cfg_id c \<noteq> [])
                            (map newNode cs))
                = childrenOf cs (cfg_id c)" if "c \<in> set cs" for c
  proof -
    have ne: "cfg_id c \<noteq> []"
      using that assms(2) by (metis image_eqI set_map)
    have "filter (\<lambda>n. node_parentId n = Some (cfg_id c) \<and> cfg_id c \<noteq> []) (map newNode cs)
            = map newNode (filter (\<lambda>c'. cfg_parentId c' = Some (cfg_id c)) cs)"
      by (simp add: filter_map o_def ne parent_of_newNode [OF ne])
    then show ?thesis
      by (simp add: childrenOf_def o_def newNode_def)
  qed
  have "buildStepTree cs
          = map snd (foldl linkChild (map (\<lambda>c. (cfg_id c, newNode c)) cs) (map newNode cs))"
    unfolding buildStepTree_def pass1 vals Let_def ..
  also have "\<dots> = map (\<lambda>c. (newNode c)\<lparr>node_children := node_children (newNode c)
                    @ map node_id (filter (\<lambda>n. node_parentId n = Some (cfg_id c)
                                               \<and> cfg_id c \<noteq> []) (map newNode cs))\<rparr>) cs"
    unfolding second_pass_keyed [OF assms(1)] by (simp add: o_def)
  also have "\<dots> = map (\<lambda>c. (newNode c)\<lparr>node_children := childrenOf cs (cfg_id c)\<rparr>) cs"
    by (intro map_cong refl) (simp add: kids newNode_def)
  finally show ?thesis .
qed

subsection \<open>Both passes on any input\<close>

lemma find_snoc:
  "find P (xs @ [x]) = (case find P xs of Some y \<Rightarrow> Some y | None \<Rightarrow> if P x then Some x else None)"
  by (induction xs) auto

lemma first_pass_keys:
  "map fst (foldl (\<lambda>m config. map_set (cfg_id config) (newNode config) m) m cs)
     = foldl (\<lambda>seen x. if x \<in> set seen then seen else seen @ [x]) (map fst m) (map cfg_id cs)"
  by (induction cs arbitrary: m) (simp_all add: map_set_keys)

lemma first_pass_distinct_keys:
  "distinct (map fst m) \<Longrightarrow>
   distinct (map fst (foldl (\<lambda>m config. map_set (cfg_id config) (newNode config) m) m cs))"
proof (induction cs arbitrary: m)
  case Nil
  then show ?case by simp
next
  case (Cons c cs)
  have "distinct (map fst (map_set (cfg_id c) (newNode c) m))"
    using Cons.prems by (simp add: map_set_keys)
  then show ?case
    using Cons.IH by simp
qed

lemma first_pass_lookup:
  "map_of (foldl (\<lambda>m config. map_set (cfg_id config) (newNode config) m) m cs) k
     = (case lastWithId cs k of Some c \<Rightarrow> Some (newNode c) | None \<Rightarrow> map_of m k)"
proof (induction cs arbitrary: m)
  case Nil
  then show ?case by (simp add: lastWithId_def)
next
  case (Cons c cs)
  show ?case
    by (simp add: Cons.IH lastWithId_def find_snoc map_of_map_set split: option.splits)
qed

lemma first_pass_entries:
  assumes "(k, v) \<in> set (foldl (\<lambda>m config. map_set (cfg_id config) (newNode config) m) [] cs)"
  shows "\<exists>c. lastWithId cs k = Some c \<and> v = newNode c \<and> cfg_id c = k"
proof -
  let ?m = "foldl (\<lambda>m config. map_set (cfg_id config) (newNode config) m) [] cs"
  have "distinct (map fst ?m)"
    by (rule first_pass_distinct_keys) simp
  then have "map_of ?m k = Some v"
    using assms by simp
  then obtain c where c: "lastWithId cs k = Some c" "v = newNode c"
    by (auto simp: first_pass_lookup split: option.splits)
  then have "cfg_id c = k"
    by (auto simp: lastWithId_def find_Some_iff)
  then show ?thesis
    using c by blast
qed

text \<open>A node without what the second pass adds to it.\<close>

lemma map_set_same_shape:
  assumes "map_of m k = Some v" and "v'\<lparr>node_children := []\<rparr> = v\<lparr>node_children := []\<rparr>"
  shows "map fst (map_set k v' m) = map fst m"
    and "map (\<lambda>e. (snd e)\<lparr>node_children := []\<rparr>) (map_set k v' m)
           = map (\<lambda>e. (snd e)\<lparr>node_children := []\<rparr>) m"
  using assms by (induction m) (auto split: if_splits)

lemma linkChild_same_shape:
  "map fst (linkChild m n) = map fst m"
  "map (\<lambda>e. (snd e)\<lparr>node_children := []\<rparr>) (linkChild m n)
     = map (\<lambda>e. (snd e)\<lparr>node_children := []\<rparr>) m"
  by (auto simp: linkChild_def map_set_same_shape split: option.splits)

lemma second_pass_same_shape:
  "map fst (foldl linkChild m ns) = map fst m"
  "map (\<lambda>e. (snd e)\<lparr>node_children := []\<rparr>) (foldl linkChild m ns)
     = map (\<lambda>e. (snd e)\<lparr>node_children := []\<rparr>) m"
  by (induction ns arbitrary: m) (simp_all add: linkChild_same_shape)

lemma firstSeen_length:
  "length (foldl (\<lambda>seen x. if x \<in> set seen then seen else seen @ [x]) acc xs)
     \<le> length acc + length xs"
proof (induction xs arbitrary: acc)
  case Nil
  then show ?case by simp
next
  case (Cons x xs)
  show ?case
    using Cons.IH [of "if x \<in> set acc then acc else acc @ [x]"] by auto
qed

text \<open>
  The nodes that \<open>buildStepTree\<close> returns are, children apart, the nodes that the first
  pass left in the map, entry by entry.
\<close>

lemma buildStepTree_shape:
  "map (\<lambda>n. n\<lparr>node_children := []\<rparr>) (buildStepTree cs)
     = map snd (foldl (\<lambda>m config. map_set (cfg_id config) (newNode config) m) [] cs)"
proof -
  let ?m = "foldl (\<lambda>m config. map_set (cfg_id config) (newNode config) m) [] cs"
  have "map (\<lambda>n. n\<lparr>node_children := []\<rparr>) (buildStepTree cs)
          = map (\<lambda>e. (snd e)\<lparr>node_children := []\<rparr>) (foldl linkChild ?m (map snd ?m))"
    by (simp add: buildStepTree_def Let_def o_def)
  also have "\<dots> = map (\<lambda>e. (snd e)\<lparr>node_children := []\<rparr>) ?m"
    by (rule second_pass_same_shape)
  also have "\<dots> = map snd ?m"
  proof (intro map_cong refl)
    fix e assume "e \<in> set ?m"
    then obtain c where "snd e = newNode c"
      using first_pass_entries [of "fst e" "snd e" cs] by auto
    then show "(snd e)\<lparr>node_children := []\<rparr> = snd e"
      by (simp add: newNode_def)
  qed
  finally show ?thesis .
qed

lemma buildStepTree_ids:
  "map node_id (buildStepTree cs) = firstSeen (map cfg_id cs)"
proof -
  let ?m = "foldl (\<lambda>m config. map_set (cfg_id config) (newNode config) m) [] cs"
  have "map node_id (buildStepTree cs)
          = map node_id (map (\<lambda>n. n\<lparr>node_children := []\<rparr>) (buildStepTree cs))"
    by (simp add: o_def)
  also have "\<dots> = map node_id (map snd ?m)"
    unfolding buildStepTree_shape ..
  also have "\<dots> = map fst ?m"
  proof -
    have "node_id (snd e) = fst e" if e: "e \<in> set ?m" for e
    proof -
      obtain c where "snd e = newNode c" "cfg_id c = fst e"
        using first_pass_entries [of "fst e" "snd e" cs] e by auto
      then show ?thesis
        by (simp add: newNode_def)
    qed
    then show ?thesis
      by (simp add: o_def)
  qed
  also have "\<dots> = firstSeen (map cfg_id cs)"
    by (simp add: first_pass_keys firstSeen_def)
  finally show ?thesis .
qed

lemma buildStepTree_last_wins:
  assumes "n \<in> set (buildStepTree cs)"
  shows "\<exists>c. lastWithId cs (node_id n) = Some c \<and> n\<lparr>node_children := []\<rparr> = newNode c"
proof -
  let ?m = "foldl (\<lambda>m config. map_set (cfg_id config) (newNode config) m) [] cs"
  have "n\<lparr>node_children := []\<rparr> \<in> set (map (\<lambda>n. n\<lparr>node_children := []\<rparr>) (buildStepTree cs))"
    using assms by (simp add: image_iff) blast
  then have "n\<lparr>node_children := []\<rparr> \<in> set (map snd ?m)"
    unfolding buildStepTree_shape .
  then obtain k where "(k, n\<lparr>node_children := []\<rparr>) \<in> set ?m"
    by auto
  then obtain c where c: "lastWithId cs k = Some c" "n\<lparr>node_children := []\<rparr> = newNode c"
    "cfg_id c = k"
    using first_pass_entries by blast
  have "node_id n = node_id (n\<lparr>node_children := []\<rparr>)"
    by simp
  also have "\<dots> = k"
    unfolding c(2) using c(3) by (simp add: newNode_def)
  finally show ?thesis
    using c by blast
qed

lemma firstSeen_distinct_set:
  "distinct acc \<Longrightarrow>
   distinct (foldl (\<lambda>seen x. if x \<in> set seen then seen else seen @ [x]) acc xs)
   \<and> set (foldl (\<lambda>seen x. if x \<in> set seen then seen else seen @ [x]) acc xs)
       = set acc \<union> set xs"
proof (induction xs arbitrary: acc)
  case Nil
  then show ?case by simp
next
  case (Cons x xs)
  have "distinct (if x \<in> set acc then acc else acc @ [x])"
    using Cons.prems by simp
  from Cons.IH [OF this] show ?case
    by auto
qed

text \<open>
  C7. On configurations with distinct, non-empty ids (what validation grants)
  \<open>buildStepTree\<close> returns, in the order of the input, the node of each configuration
  with \<open>children\<close> equal to the ids of the configurations that declare it as parent, in
  the order of the input. Nothing is required of the \<open>parentId\<close>s: a configuration
  whose \<open>parentId\<close> is no declared id raises no error and is in no \<open>children\<close> list.
\<close>

theorem buildStepTree_inverts_parentId:
  assumes "distinct (map cfg_id cs)" and "[] \<notin> set (map cfg_id cs)"
  shows "buildStepTree cs
           = map (\<lambda>c. (newNode c)\<lparr>node_children := childrenOf cs (cfg_id c)\<rparr>) cs
         \<and> map node_id (buildStepTree cs) = map cfg_id cs
         \<and> (\<forall>c \<in> set cs. \<forall>p. cfg_parentId c = Some p \<and> p \<notin> set (map cfg_id cs) \<longrightarrow>
               (\<forall>n \<in> set (buildStepTree cs). cfg_id c \<notin> set (node_children n)))"
proof -
  note eq = buildStepTree_distinct [OF assms]
  have ids: "map node_id (buildStepTree cs) = map cfg_id cs"
    unfolding eq by (simp add: o_def newNode_def)
  have dangling: "cfg_id c \<notin> set (node_children n)"
    if c: "c \<in> set cs" and p: "cfg_parentId c = Some p" "p \<notin> set (map cfg_id cs)"
      and n: "n \<in> set (buildStepTree cs)" for c p n
  proof
    assume kid: "cfg_id c \<in> set (node_children n)"
    obtain c1 where c1: "c1 \<in> set cs" "node_children n = childrenOf cs (cfg_id c1)"
      using n unfolding eq by auto
    then obtain c2 where c2: "c2 \<in> set cs" "cfg_id c2 = cfg_id c"
      "cfg_parentId c2 = Some (cfg_id c1)"
      using kid by (auto simp: childrenOf_def)
    have "c2 = c"
      using assms(1) c c2(1,2) by (auto simp: distinct_map inj_on_def)
    then have "p = cfg_id c1"
      using p(1) c2(3) by simp
    then show False
      using p(2) c1(1) by simp
  qed
  show ?thesis
    using eq ids dangling by blast
qed

lemma build_configs_branching:
  "buildStepTree configs_branching =
     [\<lparr>node_id = ''s1'', node_title = ''s1'', node_description = [], node_gitRef = ''v1'',
       node_parentId = None, node_children = [''s2a'', ''s2b''],
       node_explanationPath = ''doc.md''\<rparr>,
      \<lparr>node_id = ''s2a'', node_title = ''s2a'', node_description = [], node_gitRef = ''v2'',
       node_parentId = Some ''s1'', node_children = [], node_explanationPath = ''doc.md''\<rparr>,
      \<lparr>node_id = ''s2b'', node_title = ''s2b'', node_description = [], node_gitRef = ''v3'',
       node_parentId = Some ''s1'', node_children = [], node_explanationPath = ''doc.md''\<rparr>,
      \<lparr>node_id = ''s3'', node_title = ''s3'', node_description = [], node_gitRef = ''v4'',
       node_parentId = Some ''nope'', node_children = [], node_explanationPath = ''doc.md''\<rparr>]"
  by (simp add: configs_branching_def buildStepTree_def step_cfg_def newNode_def linkChild_def)

theorem buildStepTree_inverts_parentId_witness:
  "distinct (map cfg_id configs_branching)
   \<and> [] \<notin> set (map cfg_id configs_branching)
   \<and> map node_id (buildStepTree configs_branching) = [''s1'', ''s2a'', ''s2b'', ''s3'']
   \<and> map node_children (buildStepTree configs_branching) = [[''s2a'', ''s2b''], [], [], []]
   \<and> childrenOf configs_branching ''s1'' = [''s2a'', ''s2b'']"
proof -
  have d: "distinct (map cfg_id configs_branching)"
    by (simp add: configs_branching_def step_cfg_def)
  have e: "[] \<notin> set (map cfg_id configs_branching)"
    by (simp add: configs_branching_def step_cfg_def)
  have ids: "map cfg_id configs_branching = [''s1'', ''s2a'', ''s2b'', ''s3'']"
    by (simp add: configs_branching_def step_cfg_def)
  have kids: "childrenOf configs_branching ''s1'' = [''s2a'', ''s2b'']"
    by (simp add: childrenOf_def configs_branching_def step_cfg_def)
  have "map node_id (buildStepTree configs_branching) = map cfg_id configs_branching"
    using buildStepTree_inverts_parentId [OF d e] by blast
  then have i: "map node_id (buildStepTree configs_branching) = [''s1'', ''s2a'', ''s2b'', ''s3'']"
    unfolding ids .
  have c: "map node_children (buildStepTree configs_branching) = [[''s2a'', ''s2b''], [], [], []]"
    unfolding build_configs_branching by simp
  show ?thesis
    by (intro conjI) (rule d e i c kids)+
qed

text \<open>
  C9. On any input \<open>buildStepTree\<close> returns one node for each distinct id, placed where
  the id first occurs; the fields of the node, its children apart, are those of the
  last configuration with that id; so the output is never longer than the input, and
  shorter when an id repeats.
\<close>

theorem buildStepTree_duplicate_ids:
  "map node_id (buildStepTree cs) = firstSeen (map cfg_id cs)
   \<and> distinct (map node_id (buildStepTree cs))
   \<and> set (map node_id (buildStepTree cs)) = set (map cfg_id cs)
   \<and> (\<forall>n \<in> set (buildStepTree cs).
         \<exists>c. lastWithId cs (node_id n) = Some c \<and> n\<lparr>node_children := []\<rparr> = newNode c)
   \<and> length (buildStepTree cs) \<le> length cs"
proof -
  have ids: "map node_id (buildStepTree cs) = firstSeen (map cfg_id cs)"
    by (rule buildStepTree_ids)
  have ds: "distinct (firstSeen (map cfg_id cs))
            \<and> set (firstSeen (map cfg_id cs)) = set (map cfg_id cs)"
    using firstSeen_distinct_set [of "[]" "map cfg_id cs"] by (simp add: firstSeen_def)
  have "length (map node_id (buildStepTree cs)) \<le> length (map cfg_id cs)"
    unfolding ids firstSeen_def using firstSeen_length [of "[]" "map cfg_id cs"] by simp
  then have len: "length (buildStepTree cs) \<le> length cs"
    by simp
  show ?thesis
    using ids ds len buildStepTree_last_wins [of _ cs] by simp
qed

lemma build_configs_duplicate:
  "buildStepTree configs_duplicate =
     [\<lparr>node_id = ''a'', node_title = ''a'', node_description = [], node_gitRef = ''v3'',
       node_parentId = None, node_children = [''b''], node_explanationPath = ''doc.md''\<rparr>,
      \<lparr>node_id = ''b'', node_title = ''b'', node_description = [], node_gitRef = ''v2'',
       node_parentId = Some ''a'', node_children = [], node_explanationPath = ''doc.md''\<rparr>]"
  by (simp add: configs_duplicate_def buildStepTree_def step_cfg_def newNode_def linkChild_def)

theorem buildStepTree_duplicate_ids_witness:
  "map cfg_id configs_duplicate = [''a'', ''b'', ''a'']
   \<and> map node_id (buildStepTree configs_duplicate) = [''a'', ''b'']
   \<and> map node_gitRef (buildStepTree configs_duplicate) = [''v3'', ''v2'']
   \<and> lastWithId configs_duplicate ''a'' = Some (step_cfg ''a'' ''v3'' None)
   \<and> length (buildStepTree configs_duplicate) < length configs_duplicate"
proof -
  have ids: "map cfg_id configs_duplicate = [''a'', ''b'', ''a'']"
    by (simp add: configs_duplicate_def step_cfg_def)
  have fs: "firstSeen [''a'', ''b'', ''a''] = [''a'', ''b'']"
    by (simp add: firstSeen_def)
  have "map node_id (buildStepTree configs_duplicate) = firstSeen (map cfg_id configs_duplicate)"
    using buildStepTree_duplicate_ids [of configs_duplicate] by blast
  then have i: "map node_id (buildStepTree configs_duplicate) = [''a'', ''b'']"
    unfolding ids fs .
  have g: "map node_gitRef (buildStepTree configs_duplicate) = [''v3'', ''v2'']"
    unfolding build_configs_duplicate by simp
  have l: "lastWithId configs_duplicate ''a'' = Some (step_cfg ''a'' ''v3'' None)"
    by (simp add: lastWithId_def configs_duplicate_def step_cfg_def)
  have "length (map node_id (buildStepTree configs_duplicate)) = 2"
    unfolding i by simp
  then have n: "length (buildStepTree configs_duplicate) < length configs_duplicate"
    by (simp add: configs_duplicate_def)
  show ?thesis
    by (intro conjI) (rule ids i g l n)+
qed

end
